theory Spec2Isabelle
  imports Complex_Main "HOL-Library.AList"
begin

section \<open>Numbers and strings of the calculator module\<close>

text \<open>
  The calculator module works on JavaScript numbers and strings.  Numbers that carry
  amounts and durations are modelled as exact rationals (no rounding, no \<open>Infinity\<close>,
  no \<open>NaN\<close>); level numbers are modelled as integers of any size, printed in plain
  decimal (JavaScript counts exactly up to \<open>2^53\<close> and prints plain decimal below
  \<open>10^21\<close>).  Strings are lists of characters whose code is below 256.
\<close>

definition digitChar :: "nat \<Rightarrow> char" where
  "digitChar d = ''0123456789'' ! d"

text \<open>Decimal rendering of a non-negative integer, as a template literal prints it.\<close>

function showNat :: "nat \<Rightarrow> string" where
  "showNat n = (if n < 10 then [digitChar n] else showNat (n div 10) @ [digitChar (n mod 10)])"
  by pat_completeness auto
termination
  by (relation "measure id") auto

declare showNat.simps [simp del]

definition showInt :: "int \<Rightarrow> string" where
  "showInt i = (if i < 0 then CHR ''-'' # showNat (nat (- i)) else showNat (nat i))"



section \<open>formatTime\<close>



section \<open>parseRequirement\<close>

text \<open>
  \<open>requirement.match(/Level (\d+)\s+(.+)/)\<close> searches the string for the leftmost
  position at which the pattern matches.  \<open>\d\<close> is an ASCII digit, \<open>\s\<close> is white
  space and \<open>.\<close> is any character but a line terminator.
\<close>

definition isDigit :: "char \<Rightarrow> bool" where
  "isDigit c = (c \<in> set ''0123456789'')"

definition isSpace :: "char \<Rightarrow> bool" where
  "isSpace c = (c \<in> {CHR 0x09, CHR 0x0A, CHR 0x0B, CHR 0x0C, CHR 0x0D, CHR 0x20, CHR 0xA0})"

definition isLineTerminator :: "char \<Rightarrow> bool" where
  "isLineTerminator c = (c = CHR 0x0A \<or> c = CHR 0x0D)"

definition digitValue :: "char \<Rightarrow> int" where
  "digitValue c = int (of_char c) - 48"

text \<open>\<open>parseInt\<close> on a string of decimal digits.\<close>

definition parseInt :: "string \<Rightarrow> int" where
  "parseInt ds = foldl (\<lambda>a c. 10 * a + digitValue c) 0 ds"

fun stripPrefix :: "string \<Rightarrow> string \<Rightarrow> string option" where
  "stripPrefix [] s = Some s"
| "stripPrefix (p # ps) [] = None"
| "stripPrefix (p # ps) (c # cs) = (if p = c then stripPrefix ps cs else None)"

text \<open>
  \<open>\s+(.+)\<close> against the text after the digits: the white space is matched greedily
  and gives characters back one at a time, at least one staying, until the name group
  finds a character to start on; the name group then runs to the next line terminator
  or to the end.  The first argument is the number of characters still held by \<open>\s+\<close>.
\<close>

fun matchName :: "nat \<Rightarrow> string \<Rightarrow> string option" where
  "matchName 0 r = None"
| "matchName (Suc j) r =
     (let nm = takeWhile (\<lambda>c. \<not> isLineTerminator c) (drop (Suc j) r)
      in if nm \<noteq> [] then Some nm else matchName j r)"

text \<open>
  One attempt of the pattern at the start of \<open>s\<close>.  The digits are the longest run:
  a shorter run would be followed by a digit, which is not white space.  The object
  \<open>{structure, level}\<close> is the pair \<open>(structure, level)\<close>.
\<close>

definition matchHere :: "string \<Rightarrow> (string \<times> int) option" where
  "matchHere s =
     (case stripPrefix ''Level '' s of
        None \<Rightarrow> None
      | Some r1 \<Rightarrow>
          (let ds = takeWhile isDigit r1; r2 = dropWhile isDigit r1
           in if ds = [] then None
              else (case matchName (length (takeWhile isSpace r2)) r2 of
                      None \<Rightarrow> None
                    | Some nm \<Rightarrow> Some (nm, parseInt ds))))"

fun parseRequirement :: "string \<Rightarrow> (string \<times> int) option" where
  "parseRequirement s =
     (case matchHere s of
        Some parsed \<Rightarrow> Some parsed
      | None \<Rightarrow> (case s of [] \<Rightarrow> None | c # cs \<Rightarrow> parseRequirement cs))"

declare parseRequirement.simps [simp del]


text \<open>What a successful attempt at the start of the string has matched.\<close>

definition matchedAs :: "string \<Rightarrow> string \<Rightarrow> string \<Rightarrow> string \<Rightarrow> string \<Rightarrow> bool" where
  "matchedAs s ds ws nm post =
     (s = ''Level '' @ ds @ ws @ nm @ post \<and> ds \<noteq> [] \<and> (\<forall>c \<in> set ds. isDigit c) \<and>
      ws \<noteq> [] \<and> (\<forall>c \<in> set ws. isSpace c) \<and>
      nm \<noteq> [] \<and> (\<forall>c \<in> set nm. \<not> isLineTerminator c) \<and>
      (post = [] \<or> isLineTerminator (hd post)))"

section \<open>The structure database and the results\<close>

text \<open>
  A JavaScript object used as a dictionary is the list of its entries in insertion
  order; a key is looked up with \<open>map_of\<close> and stored with \<open>AList.update\<close>, which
  overwrites in place or appends.  Property names that are canonical array indices,
  which JavaScript enumerates first, and names inherited from \<open>Object.prototype\<close> are
  outside the model.
\<close>

type_synonym costMap = "(string \<times> rat) list"

record levelData =
  costs :: "costMap option"
  upgrade_time :: "rat option"
  requirements :: "string list option"

record structureDefinition =
  levels :: "(int \<times> levelData) list"

type_synonym structuresData = "(string \<times> structureDefinition) list"

type_synonym currentLevels = "string \<rightharpoonup> int"

record dependency =
  name :: string
  level :: int
  resources :: costMap
  time :: rat

record aggregateResult =
  individualCosts :: costMap
  dependencyCosts :: costMap
  totalCosts :: costMap
  dependencies :: "dependency list"
  individualTimes :: rat
  dependencyTimes :: rat
  totalTime :: rat

datatype dependencyTreeNode =
  Node (node_structure: string) (node_currentLevel: int) (node_targetLevel: int)
       (node_costs: costMap) (node_time: rat) (children: "dependencyTreeNode list")

text \<open>\<open>currentLevels[structure] || 1\<close>: a missing entry and the level 0 both give 1.\<close>

definition currentLevelOf :: "currentLevels \<Rightarrow> string \<Rightarrow> int" where
  "currentLevelOf lv s = (case lv s of None \<Rightarrow> 1 | Some l \<Rightarrow> if l = 0 then 1 else l)"

text \<open>\<open>m[resource] || 0\<close> and \<open>m[resource] = (m[resource] || 0) + amount\<close>.\<close>

definition getOrZero :: "costMap \<Rightarrow> string \<Rightarrow> rat" where
  "getOrZero m r = (case map_of m r of None \<Rightarrow> 0 | Some v \<Rightarrow> v)"

definition addAmount :: "costMap \<Rightarrow> string \<Rightarrow> rat \<Rightarrow> costMap" where
  "addAmount m r amount = AList.update r (getOrZero m r + amount) m"

definition emptyResult :: aggregateResult where
  "emptyResult = \<lparr>individualCosts = [], dependencyCosts = [], totalCosts = [],
     dependencies = [], individualTimes = 0, dependencyTimes = 0, totalTime = 0\<rparr>"

section \<open>calculateResourcesRecursive\<close>

subsection \<open>First pass: the maximum level needed of every prerequisite\<close>

definition trackMaximum :: "(string \<times> int) list \<Rightarrow> string \<times> int \<Rightarrow> (string \<times> int) list" where
  "trackMaximum allDependencies parsed =
     (case map_of allDependencies (fst parsed) of
        None \<Rightarrow> AList.update (fst parsed) (snd parsed) allDependencies
      | Some l \<Rightarrow>
          if l = 0 \<or> snd parsed > l
          then AList.update (fst parsed) (snd parsed) allDependencies
          else allDependencies)"

definition collectRequirements :: "levelData \<Rightarrow> (string \<times> int) list \<Rightarrow> (string \<times> int) list" where
  "collectRequirements levelData allDependencies =
     (case requirements levelData of
        None \<Rightarrow> allDependencies
      | Some reqs \<Rightarrow>
          fold (\<lambda>requirement acc.
                  case parseRequirement requirement of
                    None \<Rightarrow> acc
                  | Some parsed \<Rightarrow> trackMaximum acc parsed)
               reqs allDependencies)"

definition firstPass :: "structureDefinition \<Rightarrow> int \<Rightarrow> int \<Rightarrow> (string \<times> int) list" where
  "firstPass sd currentLevel targetLevel =
     fold (\<lambda>lvl acc. case map_of (levels sd) lvl of
                        None \<Rightarrow> acc
                      | Some levelData \<Rightarrow> collectRequirements levelData acc)
          [currentLevel + 1 .. targetLevel] []"

subsection \<open>Second pass: the structure's own costs and time\<close>

definition addIndividualCost :: "string \<times> rat \<Rightarrow> aggregateResult \<Rightarrow> aggregateResult" where
  "addIndividualCost entry result =
     result\<lparr>individualCosts := addAmount (individualCosts result) (fst entry) (snd entry),
             totalCosts := addAmount (totalCosts result) (fst entry) (snd entry)\<rparr>"

definition addLevel :: "rat \<Rightarrow> levelData \<Rightarrow> aggregateResult \<Rightarrow> aggregateResult" where
  "addLevel speedMultiplier levelData result =
     (let result1 = (case costs levelData of
                       None \<Rightarrow> result
                     | Some cs \<Rightarrow> fold addIndividualCost cs result)
      in case upgrade_time levelData of
           None \<Rightarrow> result1
         | Some t \<Rightarrow>
             if t = 0 then result1
             else (let upgradeTime = t / (1 + speedMultiplier)
                   in result1\<lparr>individualTimes := individualTimes result1 + upgradeTime,
                              totalTime := totalTime result1 + upgradeTime\<rparr>))"

definition secondPass ::
  "structureDefinition \<Rightarrow> int \<Rightarrow> int \<Rightarrow> rat \<Rightarrow> aggregateResult \<Rightarrow> aggregateResult" where
  "secondPass sd currentLevel targetLevel speedMultiplier result =
     fold (\<lambda>lvl r. case map_of (levels sd) lvl of
                      None \<Rightarrow> r
                    | Some levelData \<Rightarrow> addLevel speedMultiplier levelData r)
          [currentLevel + 1 .. targetLevel] result"

subsection \<open>Third pass: the prerequisites, each at its maximum level\<close>

text \<open>The key \<open>`${depStructure}-${maxLevel}`\<close> of the visited set.\<close>

definition depKey :: "string \<Rightarrow> int \<Rightarrow> string" where
  "depKey depStructure maxLevel = depStructure @ ''-'' @ showInt maxLevel"

definition addDependencyCost :: "string \<times> rat \<Rightarrow> aggregateResult \<Rightarrow> aggregateResult" where
  "addDependencyCost entry result =
     result\<lparr>dependencyCosts := addAmount (dependencyCosts result) (fst entry) (snd entry),
             totalCosts := addAmount (totalCosts result) (fst entry) (snd entry)\<rparr>"

definition addDependency ::
  "aggregateResult \<Rightarrow> string \<Rightarrow> int \<Rightarrow> aggregateResult \<Rightarrow> aggregateResult" where
  "addDependency result depStructure maxLevel depResult =
     (let result1 = fold addDependencyCost (totalCosts depResult) result
      in result1\<lparr>dependencyTimes := dependencyTimes result1 + totalTime depResult,
                 totalTime := totalTime result1 + totalTime depResult,
                 dependencies := dependencies result1 @
                   [\<lparr>name = depStructure, level = maxLevel,
                     resources = totalCosts depResult, time = totalTime depResult\<rparr>]\<rparr>)"

text \<open>
  The state shared by the whole call tree: the \<open>visited\<close> set, which every call
  receives by reference, and next to it a history of the charges made, one entry
  \<open>(name, level)\<close> for every execution of \<open>result.dependencies.push\<close> anywhere in the
  call tree.  The history is not a variable of the program; no branch reads it.
\<close>

type_synonym visitState = "string set \<times> (string \<times> int) list"

text \<open>
  The loop of the third pass over \<open>Object.entries(allDependencies)\<close>.  The recursive call
  is the parameter \<open>recurse\<close>; it takes the prerequisite, its maximum level, its current
  level and the shared state.
\<close>

fun thirdPass ::
  "(string \<Rightarrow> int \<Rightarrow> int \<Rightarrow> visitState \<Rightarrow> (aggregateResult \<times> visitState) option) \<Rightarrow>
   currentLevels \<Rightarrow> (string \<times> int) list \<Rightarrow> aggregateResult \<Rightarrow> visitState \<Rightarrow>
   (aggregateResult \<times> visitState) option" where
  "thirdPass recurse lv [] result st = Some (result, st)"
| "thirdPass recurse lv ((depStructure, maxLevel) # rest) result (visited, charged) =
     (let depCurrentLevel = currentLevelOf lv depStructure
      in if maxLevel > depCurrentLevel
         then (if depKey depStructure maxLevel \<notin> visited
               then (case recurse depStructure maxLevel depCurrentLevel
                            (insert (depKey depStructure maxLevel) visited, charged) of
                       None \<Rightarrow> None
                     | Some (depResult, (visited', charged')) \<Rightarrow>
                         thirdPass recurse lv rest
                           (addDependency result depStructure maxLevel depResult)
                           (visited', charged' @ [(depStructure, maxLevel)]))
               else thirdPass recurse lv rest result (visited, charged))
         else thirdPass recurse lv rest result (visited, charged))"

text \<open>
  The body of \<open>calculateResourcesRecursive\<close>, the recursive call being the parameter
  \<open>recurse\<close>.  \<open>currentLevel\<close> is \<open>None\<close> for JavaScript's \<open>null\<close>.  The parameter
  \<open>visitedLevels\<close> of the source is never read and is left out.
\<close>

definition calculateBody ::
  "(string \<Rightarrow> int \<Rightarrow> int \<Rightarrow> visitState \<Rightarrow> (aggregateResult \<times> visitState) option) \<Rightarrow>
   string \<Rightarrow> int \<Rightarrow> int option \<Rightarrow> rat \<Rightarrow> structuresData \<Rightarrow> currentLevels \<Rightarrow>
   visitState \<Rightarrow> (aggregateResult \<times> visitState) option" where
  "calculateBody recurse s targetLevel currentLevel constructionSpeedBonus db lv st =
     (let currentLevel' = (case currentLevel of None \<Rightarrow> currentLevelOf lv s | Some c \<Rightarrow> c)
      in case map_of db s of
           None \<Rightarrow> Some (emptyResult, st)
         | Some sd \<Rightarrow>
             if targetLevel \<le> currentLevel' then Some (emptyResult, st)
             else (let speedMultiplier = constructionSpeedBonus / 100;
                       allDependencies = firstPass sd currentLevel' targetLevel;
                       result = secondPass sd currentLevel' targetLevel speedMultiplier emptyResult
                   in thirdPass recurse lv allDependencies result st))"

text \<open>
  The first argument bounds the depth of the recursion: a call that needs to recurse
  deeper returns \<open>None\<close>.
\<close>

fun calculateResourcesRecursive ::
  "nat \<Rightarrow> string \<Rightarrow> int \<Rightarrow> int option \<Rightarrow> rat \<Rightarrow> structuresData \<Rightarrow> currentLevels \<Rightarrow>
   visitState \<Rightarrow> (aggregateResult \<times> visitState) option" where
  "calculateResourcesRecursive 0 s targetLevel currentLevel constructionSpeedBonus db lv st = None"
| "calculateResourcesRecursive (Suc depth) s targetLevel currentLevel constructionSpeedBonus db lv st =
     calculateBody
       (\<lambda>depStructure maxLevel depCurrentLevel st'.
          calculateResourcesRecursive depth depStructure maxLevel
            (Some depCurrentLevel) constructionSpeedBonus db lv st')
       s targetLevel currentLevel constructionSpeedBonus db lv st"

section \<open>buildDependencyTree\<close>

text \<open>The loop over the requirement strings of one level, on \<open>tree.children\<close>.\<close>

fun treeRequirements ::
  "(string \<Rightarrow> int \<Rightarrow> int \<Rightarrow> string set \<Rightarrow> dependencyTreeNode option) \<Rightarrow> currentLevels \<Rightarrow>
   string set \<Rightarrow> string list \<Rightarrow> dependencyTreeNode list \<Rightarrow> dependencyTreeNode list option" where
  "treeRequirements recurse lv visited [] treeChildren = Some treeChildren"
| "treeRequirements recurse lv visited (requirement # reqs) treeChildren =
     (case parseRequirement requirement of
        None \<Rightarrow> treeRequirements recurse lv visited reqs treeChildren
      | Some (depStructure, depLevel) \<Rightarrow>
          (let depCurrentLevel = currentLevelOf lv depStructure
           in if depLevel > depCurrentLevel
              then (let alreadyExists =
                          list_ex (\<lambda>child. node_structure child = depStructure \<and>
                                           node_targetLevel child = depLevel) treeChildren
                    in if \<not> alreadyExists
                       then (case recurse depStructure depLevel depCurrentLevel visited of
                               None \<Rightarrow> None
                             | Some childTree \<Rightarrow>
                                 treeRequirements recurse lv visited reqs (treeChildren @ [childTree]))
                       else treeRequirements recurse lv visited reqs treeChildren)
              else treeRequirements recurse lv visited reqs treeChildren))"

definition addTreeCost :: "string \<times> rat \<Rightarrow> costMap \<Rightarrow> costMap" where
  "addTreeCost entry m = addAmount m (fst entry) (snd entry)"

text \<open>The body of the loop over the levels, on the fields \<open>costs\<close>, \<open>time\<close>, \<open>children\<close>.\<close>

definition treeLevel ::
  "(string \<Rightarrow> int \<Rightarrow> int \<Rightarrow> string set \<Rightarrow> dependencyTreeNode option) \<Rightarrow> currentLevels \<Rightarrow>
   string set \<Rightarrow> rat \<Rightarrow> levelData \<Rightarrow> costMap \<times> rat \<times> dependencyTreeNode list \<Rightarrow>
   (costMap \<times> rat \<times> dependencyTreeNode list) option" where
  "treeLevel recurse lv visited speedMultiplier levelData tree =
     (case tree of (treeCosts, treeTime, treeChildren) \<Rightarrow>
        (let treeCosts1 = (case costs levelData of
                             None \<Rightarrow> treeCosts
                           | Some cs \<Rightarrow> fold addTreeCost cs treeCosts);
             treeTime1 = (case upgrade_time levelData of
                            None \<Rightarrow> treeTime
                          | Some t \<Rightarrow> if t = 0 then treeTime
                                      else treeTime + t / (1 + speedMultiplier))
         in case requirements levelData of
              None \<Rightarrow> Some (treeCosts1, treeTime1, treeChildren)
            | Some reqs \<Rightarrow>
                (case treeRequirements recurse lv visited reqs treeChildren of
                   None \<Rightarrow> None
                 | Some children' \<Rightarrow> Some (treeCosts1, treeTime1, children'))))"

fun treeLevels ::
  "(string \<Rightarrow> int \<Rightarrow> int \<Rightarrow> string set \<Rightarrow> dependencyTreeNode option) \<Rightarrow> currentLevels \<Rightarrow>
   string set \<Rightarrow> rat \<Rightarrow> structureDefinition option \<Rightarrow> int list \<Rightarrow>
   costMap \<times> rat \<times> dependencyTreeNode list \<Rightarrow>
   (costMap \<times> rat \<times> dependencyTreeNode list) option" where
  "treeLevels recurse lv visited speedMultiplier sdo [] tree = Some tree"
| "treeLevels recurse lv visited speedMultiplier sdo (lvl # lvls) tree =
     (case (case sdo of None \<Rightarrow> None | Some sd \<Rightarrow> map_of (levels sd) lvl) of
        None \<Rightarrow> treeLevels recurse lv visited speedMultiplier sdo lvls tree
      | Some levelData \<Rightarrow>
          (case treeLevel recurse lv visited speedMultiplier levelData tree of
             None \<Rightarrow> None
           | Some tree' \<Rightarrow> treeLevels recurse lv visited speedMultiplier sdo lvls tree'))"

text \<open>
  The body of \<open>buildDependencyTree\<close>, the recursive call being the parameter \<open>recurse\<close>.
  The recursive call receives \<open>new Set(visited)\<close>, a copy, which as a value is \<open>visited\<close>
  itself.
\<close>

definition buildBody ::
  "(string \<Rightarrow> int \<Rightarrow> int \<Rightarrow> string set \<Rightarrow> dependencyTreeNode option) \<Rightarrow>
   string \<Rightarrow> int \<Rightarrow> int option \<Rightarrow> structuresData \<Rightarrow> currentLevels \<Rightarrow> rat \<Rightarrow>
   string set \<Rightarrow> dependencyTreeNode option" where
  "buildBody recurse s targetLevel currentLevel db lv constructionSpeedBonus visited =
     (let currentLevel' = (case currentLevel of None \<Rightarrow> currentLevelOf lv s | Some c \<Rightarrow> c)
      in if targetLevel \<le> currentLevel'
         then Some (Node s currentLevel' targetLevel [] 0 [])
         else (let speedMultiplier = constructionSpeedBonus / 100
               in case treeLevels recurse lv visited speedMultiplier (map_of db s)
                         [currentLevel' + 1 .. targetLevel] ([], 0, []) of
                    None \<Rightarrow> None
                  | Some (treeCosts, treeTime, treeChildren) \<Rightarrow>
                      Some (Node s currentLevel' targetLevel treeCosts treeTime treeChildren)))"

text \<open>The first argument bounds the depth of the recursion, as above.\<close>

fun buildDependencyTree ::
  "nat \<Rightarrow> string \<Rightarrow> int \<Rightarrow> int option \<Rightarrow> structuresData \<Rightarrow> currentLevels \<Rightarrow> rat \<Rightarrow>
   string set \<Rightarrow> dependencyTreeNode option" where
  "buildDependencyTree 0 s targetLevel currentLevel db lv constructionSpeedBonus visited = None"
| "buildDependencyTree (Suc depth) s targetLevel currentLevel db lv constructionSpeedBonus visited =
     buildBody
       (\<lambda>depStructure depLevel depCurrentLevel visited'.
          buildDependencyTree depth depStructure depLevel (Some depCurrentLevel)
            db lv constructionSpeedBonus visited')
       s targetLevel currentLevel db lv constructionSpeedBonus visited"

section \<open>Notions used in the statements\<close>

text \<open>
  The keys that a requirement string of the database can give rise to.  The set is
  finite; every key that the third pass adds to \<open>visited\<close> lies in it.
\<close>

definition levelKeys :: "levelData \<Rightarrow> string list" where
  "levelKeys levelData =
     (case requirements levelData of
        None \<Rightarrow> []
      | Some reqs \<Rightarrow>
          concat (map (\<lambda>requirement. case parseRequirement requirement of
                                         None \<Rightarrow> []
                                       | Some parsed \<Rightarrow> [depKey (fst parsed) (snd parsed)])
                      reqs))"

definition requirementKeys :: "structuresData \<Rightarrow> string list" where
  "requirementKeys db =
     concat (map (\<lambda>entry. concat (map (\<lambda>lvlEntry. levelKeys (snd lvlEntry))
                                        (levels (snd entry)))) db)"

text \<open>
  The prerequisites demanded by the levels above \<open>currentLevel\<close> up to \<open>targetLevel\<close>
  that exist in the database: every requirement string that parses, in order.
\<close>

definition demands :: "structureDefinition \<Rightarrow> int \<Rightarrow> int \<Rightarrow> (string \<times> int) list" where
  "demands sd currentLevel targetLevel =
     concat (map (\<lambda>lvl. case map_of (levels sd) lvl of
                           None \<Rightarrow> []
                         | Some levelData \<Rightarrow>
                             (case requirements levelData of
                                None \<Rightarrow> []
                              | Some reqs \<Rightarrow> List.map_filter parseRequirement reqs))
                 [currentLevel + 1 .. targetLevel])"


text \<open>
  The list \<open>acc\<close> holds, for every prerequisite among the demands \<open>seen\<close>, one entry, and
  that entry is the demand of the highest level.
\<close>

definition maxOfDemands :: "(string \<times> int) list \<Rightarrow> (string \<times> int) list \<Rightarrow> bool" where
  "maxOfDemands acc seen =
     (distinct (map fst acc) \<and>
      (\<forall>nm l. map_of acc nm = Some l \<longrightarrow> (nm, l) \<in> set seen) \<and>
      (\<forall>q \<in> set seen. \<exists>l. map_of acc (fst q) = Some l \<and> snd q \<le> l))"

text \<open>The visited-set keys of a list of charges, and the charge a dependency entry records.\<close>

definition keysOf :: "(string \<times> int) list \<Rightarrow> string list" where
  "keysOf charged = map (\<lambda>p. depKey (fst p) (snd p)) charged"

definition chargeOf :: "dependency \<Rightarrow> string \<times> int" where
  "chargeOf dep = (name dep, level dep)"

text \<open>The data model's invariant that no level takes a negative time.\<close>

definition nonNegativeTimes :: "structuresData \<Rightarrow> bool" where
  "nonNegativeTimes db =
     list_all (\<lambda>entry. list_all (\<lambda>lvlEntry. case upgrade_time (snd lvlEntry) of
                                                None \<Rightarrow> True
                                              | Some t \<Rightarrow> 0 \<le> t)
                                  (levels (snd entry))) db"

text \<open>
  Two results agree on every cost map and on the names, levels and resources of their
  dependencies, and their times are related by \<open>timeRel\<close>, field by field.
\<close>

definition sameCosts :: "(rat \<Rightarrow> rat \<Rightarrow> bool) \<Rightarrow> aggregateResult \<Rightarrow> aggregateResult \<Rightarrow> bool" where
  "sameCosts timeRel r1 r2 =
     (individualCosts r1 = individualCosts r2 \<and> dependencyCosts r1 = dependencyCosts r2 \<and>
      totalCosts r1 = totalCosts r2 \<and>
      timeRel (individualTimes r1) (individualTimes r2) \<and>
      timeRel (dependencyTimes r1) (dependencyTimes r2) \<and>
      timeRel (totalTime r1) (totalTime r2) \<and>
      list_all2 (\<lambda>d1 d2. name d1 = name d2 \<and> level d1 = level d2 \<and>
                          resources d1 = resources d2 \<and> timeRel (time d1) (time d2))
                (dependencies r1) (dependencies r2))"

text \<open>
  What the comparison of two bonuses needs of \<open>timeRel\<close>: it holds of zero, it is kept by
  addition, and it relates the two adjusted times of every level of the database.
\<close>

definition timesRelated :: "(rat \<Rightarrow> rat \<Rightarrow> bool) \<Rightarrow> rat \<Rightarrow> rat \<Rightarrow> structuresData \<Rightarrow> bool" where
  "timesRelated timeRel p1 p2 db =
     (timeRel 0 0 \<and>
      (\<forall>a b c d. timeRel a b \<longrightarrow> timeRel c d \<longrightarrow> timeRel (a + c) (b + d)) \<and>
      (\<forall>s sd lvl ld u. map_of db s = Some sd \<longrightarrow> map_of (levels sd) lvl = Some ld \<longrightarrow>
         upgrade_time ld = Some u \<longrightarrow> timeRel (u / (1 + p1 / 100)) (u / (1 + p2 / 100))))"

text \<open>Two bounded runs both fail, or both return, with related results and the same state.\<close>

definition sameRun ::
  "(rat \<Rightarrow> rat \<Rightarrow> bool) \<Rightarrow> (aggregateResult \<times> visitState) option \<Rightarrow>
   (aggregateResult \<times> visitState) option \<Rightarrow> bool" where
  "sameRun timeRel x1 x2 =
     (case x1 of
        None \<Rightarrow> x2 = None
      | Some y1 \<Rightarrow> (case x2 of
                     None \<Rightarrow> False
                   | Some y2 \<Rightarrow> sameCosts timeRel (fst y1) (fst y2) \<and> snd y1 = snd y2))"

text \<open>No node of the tree has two direct children for the same structure and target level.\<close>

fun siblingsDistinct :: "dependencyTreeNode \<Rightarrow> bool" where
  "siblingsDistinct (Node s c t cs tm kids) =
     (distinct (map (\<lambda>kid. (node_structure kid, node_targetLevel kid)) kids) \<and>
      (\<forall>kid \<in> set kids. siblingsDistinct kid))"

text \<open>The same for a list of children.\<close>

definition kidsDistinct :: "dependencyTreeNode list \<Rightarrow> bool" where
  "kidsDistinct kids =
     (distinct (map (\<lambda>kid. (node_structure kid, node_targetLevel kid)) kids) \<and>
      (\<forall>kid \<in> set kids. siblingsDistinct kid))"

section \<open>Example databases\<close>

text \<open>
  The end-to-end scenario of the specification.  What the first level of either structure
  holds is left open.
\<close>

definition mineDatabase :: "levelData \<Rightarrow> levelData \<Rightarrow> structuresData" where
  "mineDatabase mine1 warehouse1 =
     [(''Mine'', \<lparr>levels =
         [(1, mine1),
          (2, \<lparr>costs = Some [(''metal'', 100)], upgrade_time = Some 60,
               requirements = Some [''Level 1 Warehouse'']\<rparr>),
          (3, \<lparr>costs = Some [(''metal'', 200)], upgrade_time = Some 120,
               requirements = Some [''Level 2 Warehouse'']\<rparr>)]\<rparr>),
      (''Warehouse'', \<lparr>levels =
         [(1, warehouse1),
          (2, \<lparr>costs = Some [(''wood'', 50)], upgrade_time = Some 30,
               requirements = None\<rparr>)]\<rparr>)]"

definition noLevelData :: levelData where
  "noLevelData = \<lparr>costs = None, upgrade_time = None, requirements = None\<rparr>"

definition mineLevels :: currentLevels where
  "mineLevels = [''Mine'' \<mapsto> 1, ''Warehouse'' \<mapsto> 1]"

text \<open>
  Levels 2 and 3 of \<open>A\<close> require levels 2 and 3 of \<open>B\<close>; level 3 of \<open>A\<close> also requires
  level 2 of \<open>C\<close>, whose level 2 requires the level of \<open>B\<close> written in \<open>viaC\<close>.  Only \<open>B\<close>
  costs anything: 10, 100 and 1000 stone for its levels 2, 3 and 4.
\<close>

definition sharedPrerequisite :: "string \<Rightarrow> structuresData" where
  "sharedPrerequisite viaC =
     [(''A'', \<lparr>levels =
         [(2, \<lparr>costs = None, upgrade_time = None, requirements = Some [''Level 2 B'']\<rparr>),
          (3, \<lparr>costs = None, upgrade_time = None,
               requirements = Some [''Level 3 B'', ''Level 2 C'']\<rparr>)]\<rparr>),
      (''B'', \<lparr>levels =
         [(2, \<lparr>costs = Some [(''stone'', 10)], upgrade_time = None, requirements = None\<rparr>),
          (3, \<lparr>costs = Some [(''stone'', 100)], upgrade_time = None, requirements = None\<rparr>),
          (4, \<lparr>costs = Some [(''stone'', 1000)], upgrade_time = None, requirements = None\<rparr>)]\<rparr>),
      (''C'', \<lparr>levels =
         [(2, \<lparr>costs = None, upgrade_time = None, requirements = Some [viaC]\<rparr>)]\<rparr>)]"

section \<open>Properties of formatTime\<close>











section \<open>The first pass only retains what the database demands\<close>

lemma set_update_subset: "set (AList.update k v al) \<subseteq> insert (k, v) (set al)"
  by (induction al) auto

lemma set_trackMaximum: "set (trackMaximum acc p) \<subseteq> insert p (set acc)"
  using set_update_subset [of "fst p" "snd p" acc]
  by (auto simp: trackMaximum_def split: option.split)

lemma trackMaximum_keys:
  assumes "\<forall>p \<in> set acc. depKey (fst p) (snd p) \<in> K" and "depKey (fst q) (snd q) \<in> K"
  shows "\<forall>p \<in> set (trackMaximum acc q). depKey (fst p) (snd p) \<in> K"
proof
  fix p assume "p \<in> set (trackMaximum acc q)"
  then have "p = q \<or> p \<in> set acc" using set_trackMaximum [of acc q] by auto
  then show "depKey (fst p) (snd p) \<in> K" using assms by auto
qed

lemma parsed_key_in_levelKeys:
  assumes "requirements ld = Some reqs" and "req \<in> set reqs" and "parseRequirement req = Some q"
  shows "depKey (fst q) (snd q) \<in> set (levelKeys ld)"
  unfolding levelKeys_def assms(1) option.case set_concat set_map
  using assms(2,3) by force

lemma collectRequirements_keys:
  assumes "\<forall>p \<in> set acc. depKey (fst p) (snd p) \<in> K" and "set (levelKeys ld) \<subseteq> K"
  shows "\<forall>p \<in> set (collectRequirements ld acc). depKey (fst p) (snd p) \<in> K"
proof (cases "requirements ld")
  case None
  then show ?thesis using assms(1) by (simp add: collectRequirements_def)
next
  case (Some reqs)
  have inv: "\<forall>p \<in> set (fold (\<lambda>requirement acc. case parseRequirement requirement of
            None \<Rightarrow> acc | Some parsed \<Rightarrow> trackMaximum acc parsed) rs acc').
          depKey (fst p) (snd p) \<in> K"
    if "set rs \<subseteq> set reqs" and "\<forall>p \<in> set acc'. depKey (fst p) (snd p) \<in> K" for rs acc'
    using that
  proof (induction rs arbitrary: acc')
    case Nil
    then show ?case by simp
  next
    case (Cons req rs)
    have step: "\<forall>p \<in> set (case parseRequirement req of None \<Rightarrow> acc' | Some parsed \<Rightarrow> trackMaximum acc' parsed).
            depKey (fst p) (snd p) \<in> K"
    proof (cases "parseRequirement req")
      case None
      then show ?thesis using Cons.prems(2) by simp
    next
      case (Some q)
      have "req \<in> set reqs" using Cons.prems(1) by simp
      then have "depKey (fst q) (snd q) \<in> K"
        using parsed_key_in_levelKeys [OF \<open>requirements ld = Some reqs\<close> _ Some] assms(2) by blast
      then show ?thesis unfolding Some option.case by (rule trackMaximum_keys [OF Cons.prems(2)])
    qed
    have "set rs \<subseteq> set reqs" using Cons.prems(1) by simp
    from Cons.IH [OF this step] show ?case by simp
  qed
  show ?thesis using inv [of reqs acc] assms(1) by (simp add: collectRequirements_def Some)
qed

lemma levelKeys_in_database:
  assumes "map_of db s = Some sd" and "map_of (levels sd) lvl = Some ld"
  shows "set (levelKeys ld) \<subseteq> set (requirementKeys db)"
proof -
  have "(s, sd) \<in> set db" and "(lvl, ld) \<in> set (levels sd)"
    using assms by (auto dest: map_of_SomeD)
  then show ?thesis by (force simp: requirementKeys_def)
qed

lemma firstPass_keys:
  assumes "map_of db s = Some sd"
  shows "\<forall>p \<in> set (firstPass sd c t). depKey (fst p) (snd p) \<in> set (requirementKeys db)"
proof -
  have inv: "\<forall>p \<in> set (fold (\<lambda>lvl acc. case map_of (levels sd) lvl of
            None \<Rightarrow> acc | Some levelData \<Rightarrow> collectRequirements levelData acc) lvls acc).
          depKey (fst p) (snd p) \<in> set (requirementKeys db)"
    if "\<forall>p \<in> set acc. depKey (fst p) (snd p) \<in> set (requirementKeys db)" for lvls acc
    using that
  proof (induction lvls arbitrary: acc)
    case Nil
    then show ?case by simp
  next
    case (Cons lvl lvls)
    have "\<forall>p \<in> set (case map_of (levels sd) lvl of
              None \<Rightarrow> acc | Some levelData \<Rightarrow> collectRequirements levelData acc).
            depKey (fst p) (snd p) \<in> set (requirementKeys db)"
    proof (cases "map_of (levels sd) lvl")
      case None
      then show ?thesis using Cons.prems by simp
    next
      case (Some ld)
      show ?thesis unfolding Some option.case
        by (rule collectRequirements_keys [OF Cons.prems levelKeys_in_database [OF assms Some]])
    qed
    then show ?case using Cons.IH by simp
  qed
  show ?thesis using inv [of "[]" "[c + 1 .. t]"] by (simp add: firstPass_def)
qed

section \<open>The visited set only grows, and the recursion ends\<close>

lemma thirdPass_visited_mono:
  assumes "\<And>d m c st r st'. recurse d m c st = Some (r, st') \<Longrightarrow> fst st \<subseteq> fst st'"
    and "thirdPass recurse lv deps r st = Some (r', st')"
  shows "fst st \<subseteq> fst st'"
  using assms(2)
proof (induction deps arbitrary: r st)
  case Nil
  then show ?case by simp
next
  case (Cons dep deps)
  obtain d m where dep: "dep = (d, m)" by (cases dep)
  obtain vis ch where st: "st = (vis, ch)" by (cases st)
  show ?case
  proof (cases "m > currentLevelOf lv d \<and> depKey d m \<notin> vis")
    case False
    then have "thirdPass recurse lv deps r (vis, ch) = Some (r', st')"
      using Cons.prems unfolding dep st by (auto simp: Let_def split: if_splits)
    from Cons.IH [OF this] show ?thesis unfolding st by simp
  next
    case True
    then obtain dr vis1 ch1 where
      rec: "recurse d m (currentLevelOf lv d) (insert (depKey d m) vis, ch) = Some (dr, (vis1, ch1))"
      and rest: "thirdPass recurse lv deps (addDependency r d m dr) (vis1, ch1 @ [(d, m)]) = Some (r', st')"
      using Cons.prems unfolding dep st
      by (auto simp: Let_def split: option.splits)
    have "insert (depKey d m) vis \<subseteq> vis1" using assms(1) [OF rec] by simp
    moreover have "vis1 \<subseteq> fst st'" using Cons.IH [OF rest] by simp
    ultimately show ?thesis unfolding st by auto
  qed
qed

lemma calculateBody_visited_mono:
  assumes "\<And>d m c st r st'. recurse d m c st = Some (r, st') \<Longrightarrow> fst st \<subseteq> fst st'"
    and "calculateBody recurse s t c b db lv st = Some (r, st')"
  shows "fst st \<subseteq> fst st'"
proof (cases "map_of db s")
  case None
  then show ?thesis using assms(2) by (simp add: calculateBody_def)
next
  case (Some sd)
  show ?thesis
  proof (cases "t \<le> (case c of None \<Rightarrow> currentLevelOf lv s | Some c' \<Rightarrow> c')")
    case True
    then show ?thesis using assms(2) Some by (simp add: calculateBody_def)
  next
    case False
    then have "thirdPass recurse lv
        (firstPass sd (case c of None \<Rightarrow> currentLevelOf lv s | Some c' \<Rightarrow> c') t)
        (secondPass sd (case c of None \<Rightarrow> currentLevelOf lv s | Some c' \<Rightarrow> c') t (b / 100) emptyResult)
        st = Some (r, st')"
      using assms(2) Some by (simp add: calculateBody_def Let_def)
    then show ?thesis by (rule thirdPass_visited_mono [rotated]) (erule assms(1))
  qed
qed

lemma calculate_visited_mono:
  "calculateResourcesRecursive depth s t c b db lv st = Some (r, st') \<Longrightarrow> fst st \<subseteq> fst st'"
proof (induction depth arbitrary: s t c st r st')
  case 0
  then show ?case by simp
next
  case (Suc depth)
  from Suc.prems have "calculateBody (\<lambda>d m c' st'.
      calculateResourcesRecursive depth d m (Some c') b db lv st') s t c b db lv st = Some (r, st')"
    by simp
  then show ?case by (rule calculateBody_visited_mono [rotated]) (erule Suc.IH)
qed

lemma thirdPass_returns:
  assumes rec: "\<And>d m c vis ch. card (K - vis) < n \<Longrightarrow>
      \<exists>r vis' ch'. recurse d m c (vis, ch) = Some (r, (vis', ch')) \<and> vis \<subseteq> vis'"
    and fin: "finite K"
    and keys: "\<forall>p \<in> set deps. depKey (fst p) (snd p) \<in> K"
    and bound: "card (K - vis) \<le> n"
  shows "\<exists>r' vis' ch'. thirdPass recurse lv deps r (vis, ch) = Some (r', (vis', ch')) \<and> vis \<subseteq> vis'"
  using keys bound
proof (induction deps arbitrary: r vis ch)
  case Nil
  then show ?case by simp
next
  case (Cons dep deps)
  obtain d m where dep: "dep = (d, m)" by (cases dep)
  have keys': "\<forall>p \<in> set deps. depKey (fst p) (snd p) \<in> K" using Cons.prems(1) by simp
  show ?case
  proof (cases "m > currentLevelOf lv d \<and> depKey d m \<notin> vis")
    case False
    then show ?thesis using Cons.IH [OF keys' Cons.prems(2), of r ch] unfolding dep
      by (auto simp: Let_def)
  next
    case True
    have inK: "depKey d m \<in> K" using Cons.prems(1) dep by simp
    have "K - insert (depKey d m) vis \<subset> K - vis" using inK True by auto
    then have "card (K - insert (depKey d m) vis) < card (K - vis)"
      using fin by (simp add: psubset_card_mono)
    then have "card (K - insert (depKey d m) vis) < n" using Cons.prems(2) by simp
    from rec [OF this] obtain dr vis1 ch1 where
      run: "recurse d m (currentLevelOf lv d) (insert (depKey d m) vis, ch) = Some (dr, (vis1, ch1))"
      and sub: "insert (depKey d m) vis \<subseteq> vis1"
      by blast
    have "K - vis1 \<subseteq> K - vis" using sub by auto
    then have "card (K - vis1) \<le> card (K - vis)" using fin by (simp add: card_mono)
    then have bound1: "card (K - vis1) \<le> n" using Cons.prems(2) by simp
    from Cons.IH [OF keys' bound1, of "addDependency r d m dr" "ch1 @ [(d, m)]"]
    obtain r' vis' ch' where
      "thirdPass recurse lv deps (addDependency r d m dr) (vis1, ch1 @ [(d, m)]) = Some (r', (vis', ch'))"
      and "vis1 \<subseteq> vis'"
      by blast
    then show ?thesis using True run sub unfolding dep by (auto simp: Let_def)
  qed
qed

lemma calculate_returns:
  assumes "card (set (requirementKeys db) - vis) < depth"
  shows "\<exists>r vis' ch'. calculateResourcesRecursive depth s t c b db lv (vis, ch) = Some (r, (vis', ch'))
           \<and> vis \<subseteq> vis'"
  using assms
proof (induction depth arbitrary: s t c vis ch)
  case 0
  then show ?case by simp
next
  case (Suc depth)
  show ?case
  proof (cases "map_of db s")
    case None
    then show ?thesis by (simp add: calculateBody_def)
  next
    case (Some sd)
    define cur where "cur = (case c of None \<Rightarrow> currentLevelOf lv s | Some c' \<Rightarrow> c')"
    show ?thesis
    proof (cases "t \<le> cur")
      case True
      then show ?thesis using Some by (simp add: cur_def calculateBody_def)
    next
      case False
      have bound: "card (set (requirementKeys db) - vis) \<le> depth" using Suc.prems by simp
      have "\<exists>r' vis' ch'. thirdPass (\<lambda>d m c' st'.
                calculateResourcesRecursive depth d m (Some c') b db lv st') lv
              (firstPass sd cur t) (secondPass sd cur t (b / 100) emptyResult) (vis, ch)
            = Some (r', (vis', ch')) \<and> vis \<subseteq> vis'"
        by (rule thirdPass_returns [where K = "set (requirementKeys db)" and n = depth,
              OF Suc.IH _ firstPass_keys [OF Some] bound]) simp_all
      then show ?thesis using Some False by (simp add: cur_def calculateBody_def Let_def)
    qed
  qed
qed

section \<open>A larger depth bound gives the same result\<close>

lemma thirdPass_recurse_mono:
  assumes "\<And>d m c st x. recurse1 d m c st = Some x \<Longrightarrow> recurse2 d m c st = Some x"
    and "thirdPass recurse1 lv deps r st = Some x"
  shows "thirdPass recurse2 lv deps r st = Some x"
  using assms(2)
proof (induction deps arbitrary: r st)
  case Nil
  then show ?case by simp
next
  case (Cons dep deps)
  obtain d m where dep: "dep = (d, m)" by (cases dep)
  obtain vis ch where st: "st = (vis, ch)" by (cases st)
  show ?case
  proof (cases "m > currentLevelOf lv d \<and> depKey d m \<notin> vis")
    case False
    then have "thirdPass recurse1 lv deps r (vis, ch) = Some x"
      using Cons.prems unfolding dep st by (auto simp: Let_def split: if_splits)
    from Cons.IH [OF this] show ?thesis using False unfolding dep st by (auto simp: Let_def)
  next
    case True
    then obtain dr vis1 ch1 where
      rec: "recurse1 d m (currentLevelOf lv d) (insert (depKey d m) vis, ch) = Some (dr, (vis1, ch1))"
      and rest: "thirdPass recurse1 lv deps (addDependency r d m dr) (vis1, ch1 @ [(d, m)]) = Some x"
      using Cons.prems unfolding dep st
      by (auto simp: Let_def split: option.splits)
    show ?thesis using True assms(1) [OF rec] Cons.IH [OF rest] unfolding dep st
      by (simp add: Let_def)
  qed
qed

lemma calculateBody_recurse_mono:
  assumes "\<And>d m c st x. recurse1 d m c st = Some x \<Longrightarrow> recurse2 d m c st = Some x"
    and "calculateBody recurse1 s t c b db lv st = Some x"
  shows "calculateBody recurse2 s t c b db lv st = Some x"
proof (cases "map_of db s")
  case None
  then show ?thesis using assms(2) by (simp add: calculateBody_def)
next
  case (Some sd)
  show ?thesis
  proof (cases "t \<le> (case c of None \<Rightarrow> currentLevelOf lv s | Some c' \<Rightarrow> c')")
    case True
    then show ?thesis using assms(2) Some by (simp add: calculateBody_def)
  next
    case False
    then have "thirdPass recurse1 lv
        (firstPass sd (case c of None \<Rightarrow> currentLevelOf lv s | Some c' \<Rightarrow> c') t)
        (secondPass sd (case c of None \<Rightarrow> currentLevelOf lv s | Some c' \<Rightarrow> c') t (b / 100) emptyResult)
        st = Some x"
      using assms(2) Some by (simp add: calculateBody_def Let_def)
    from thirdPass_recurse_mono [OF assms(1) this]
    show ?thesis using False Some by (simp add: calculateBody_def Let_def)
  qed
qed

lemma calculate_depth_Suc:
  "calculateResourcesRecursive depth s t c b db lv st = Some x \<Longrightarrow>
   calculateResourcesRecursive (Suc depth) s t c b db lv st = Some x"
proof (induction depth arbitrary: s t c st x)
  case 0
  then show ?case by simp
next
  case (Suc depth)
  from Suc.prems have "calculateBody (\<lambda>d m c' st'.
      calculateResourcesRecursive depth d m (Some c') b db lv st') s t c b db lv st = Some x"
    by simp
  then have step: "calculateBody (\<lambda>d m c' st'.
      calculateResourcesRecursive (Suc depth) d m (Some c') b db lv st') s t c b db lv st = Some x"
    by (rule calculateBody_recurse_mono [rotated]) (erule Suc.IH)
  show ?case by (subst calculateResourcesRecursive.simps(2)) (rule step)
qed

lemma calculate_depth_mono:
  assumes "calculateResourcesRecursive depth s t c b db lv st = Some x" and "depth \<le> depth'"
  shows "calculateResourcesRecursive depth' s t c b db lv st = Some x"
  using assms(2,1)
  by (induction rule: dec_induct) (auto intro: calculate_depth_Suc simp del: calculateResourcesRecursive.simps)

lemma calculate_deterministic:
  assumes "calculateResourcesRecursive depth1 s t c b db lv st = Some x"
    and "calculateResourcesRecursive depth2 s t c b db lv st = Some y"
  shows "x = y"
  using calculate_depth_mono [OF assms(1), of "max depth1 depth2"]
    calculate_depth_mono [OF assms(2), of "max depth1 depth2"]
  by simp

section \<open>Properties of the cost maps\<close>



section \<open>The totals are the sums of their parts\<close>









lemma calculate_returns_enough:
  "\<exists>r st'. calculateResourcesRecursive (Suc (length (requirementKeys db))) s t c b db lv st
     = Some (r, st')"
proof -
  obtain vis ch where st: "st = (vis, ch)" by (cases st)
  have "card (set (requirementKeys db) - vis) \<le> card (set (requirementKeys db))"
    by (simp add: card_mono)
  also have "\<dots> \<le> length (requirementKeys db)" by (rule card_length)
  finally have "card (set (requirementKeys db) - vis) < Suc (length (requirementKeys db))"
    by simp
  from calculate_returns [OF this, of s t c b lv ch] show ?thesis unfolding st by blast
qed

lemma mine_parse:
  "parseRequirement ''Level 1 Warehouse'' = Some (''Warehouse'', 1)"
  "parseRequirement ''Level 2 Warehouse'' = Some (''Warehouse'', 2)"
  by code_simp+

lemma mine_depKey: "depKey ''Warehouse'' 2 = ''Warehouse-2''"
  by code_simp

lemma mine_run:
  "calculateResourcesRecursive (Suc (Suc depth)) ''Mine'' 3 (Some 1) 0
     (mineDatabase mine1 warehouse1) mineLevels ({}, []) =
   Some (\<lparr>individualCosts = [(''metal'', 300)],
           dependencyCosts = [(''wood'', 50)],
           totalCosts = [(''metal'', 300), (''wood'', 50)],
           dependencies = [\<lparr>name = ''Warehouse'', level = 2,
                            resources = [(''wood'', 50)], time = 30\<rparr>],
           individualTimes = 180, dependencyTimes = 30, totalTime = 210\<rparr>,
         ({''Warehouse-2''}, [(''Warehouse'', 2)]))"
  by (simp add: calculateBody_def mineDatabase_def mineLevels_def firstPass_def secondPass_def
      addLevel_def addIndividualCost_def addAmount_def getOrZero_def emptyResult_def
      collectRequirements_def currentLevelOf_def mine_depKey addDependency_def
      addDependencyCost_def upto_rec1 mine_parse trackMaximum_def)



text \<open>
  C2.  The end-to-end scenario: upgrading the Mine from level 1 to level 3 without a speed
  bonus costs 300 metal and 180 seconds itself, discovers the Warehouse once, at level 2,
  for 50 wood and 30 seconds, and totals 300 metal, 50 wood and 210 seconds.
\<close>

theorem mine_scenario:
  "calculateResourcesRecursive (Suc (Suc depth)) ''Mine'' 3 (Some 1) 0
     (mineDatabase mine1 warehouse1) mineLevels ({}, []) =
   Some (\<lparr>individualCosts = [(''metal'', 300)],
           dependencyCosts = [(''wood'', 50)],
           totalCosts = [(''metal'', 300), (''wood'', 50)],
           dependencies = [\<lparr>name = ''Warehouse'', level = 2,
                            resources = [(''wood'', 50)], time = 30\<rparr>],
           individualTimes = 180, dependencyTimes = 30, totalTime = 210\<rparr>,
         ({''Warehouse-2''}, [(''Warehouse'', 2)]))"
  by (rule mine_run)

section \<open>Nothing to upgrade\<close>




section \<open>The tree builder and its visited set\<close>

lemma treeRequirements_visited:
  assumes "\<And>d m c. recurse d m c v1 = recurse d m c v2"
  shows "treeRequirements recurse lv v1 reqs kids = treeRequirements recurse lv v2 reqs kids"
proof (induction reqs arbitrary: kids)
  case Nil
  show ?case by simp
next
  case (Cons req reqs)
  show ?case
    by (simp add: Cons.IH assms Let_def split: option.split prod.split)
qed

lemma treeLevel_visited:
  assumes "\<And>d m c. recurse d m c v1 = recurse d m c v2"
  shows "treeLevel recurse lv v1 sm ld tree = treeLevel recurse lv v2 sm ld tree"
  unfolding treeLevel_def treeRequirements_visited [of recurse v1 v2, OF assms] by (rule refl)

lemma treeLevels_visited:
  assumes "\<And>d m c. recurse d m c v1 = recurse d m c v2"
  shows "treeLevels recurse lv v1 sm sdo lvls tree = treeLevels recurse lv v2 sm sdo lvls tree"
proof (induction lvls arbitrary: tree)
  case Nil
  show ?case by simp
next
  case (Cons lvl lvls)
  show ?case
    using Cons.IH
    by (auto simp: treeLevel_visited [of recurse v1 v2, OF assms] split: option.split)
qed

lemma buildBody_visited:
  assumes "\<And>d m c. recurse d m c v1 = recurse d m c v2"
  shows "buildBody recurse s t c db lv b v1 = buildBody recurse s t c db lv b v2"
  unfolding buildBody_def treeLevels_visited [of recurse v1 v2, OF assms] by (rule refl)

text \<open>
  C10.  The tree that \<open>buildDependencyTree\<close> returns does not depend on the visited set it
  is given: the set is handed on to the recursive calls and never read or extended.
\<close>

theorem tree_ignores_visited:
  "buildDependencyTree depth s targetLevel currentLevel db lv bonus visited1 =
   buildDependencyTree depth s targetLevel currentLevel db lv bonus visited2"
proof (induction depth arbitrary: s targetLevel currentLevel)
  case 0
  show ?case by simp
next
  case (Suc depth)
  show ?case
    unfolding buildDependencyTree.simps
    by (rule buildBody_visited) (rule Suc.IH)
qed

section \<open>Siblings in the tree\<close>

lemma alreadyExists_iff:
  "list_ex (\<lambda>child. node_structure child = d \<and> node_targetLevel child = m) kids \<longleftrightarrow>
   (d, m) \<in> set (map (\<lambda>kid. (node_structure kid, node_targetLevel kid)) kids)"
  by (auto simp: list_ex_iff)

lemma treeRequirements_distinct:
  assumes rec: "\<And>d m c v tree. recurse d m c v = Some tree \<Longrightarrow>
      node_structure tree = d \<and> node_targetLevel tree = m \<and> siblingsDistinct tree"
    and "kidsDistinct kids"
    and "treeRequirements recurse lv v reqs kids = Some kids'"
  shows "kidsDistinct kids'"
  using assms(2,3)
proof (induction reqs arbitrary: kids)
  case Nil
  then show ?case by simp
next
  case (Cons req reqs)
  show ?case
  proof (cases "parseRequirement req")
    case None
    then show ?thesis using Cons by simp
  next
    case (Some parsed)
    obtain d m where parsed: "parsed = (d, m)" by (cases parsed)
    show ?thesis
    proof (cases "m > currentLevelOf lv d \<and>
        (d, m) \<notin> set (map (\<lambda>kid. (node_structure kid, node_targetLevel kid)) kids)")
      case False
      then have "treeRequirements recurse lv v reqs kids = Some kids'"
        using Cons.prems(2) Some parsed
        by (auto simp: Let_def alreadyExists_iff simp del: set_map split: if_splits)
      from Cons.IH [OF Cons.prems(1) this] show ?thesis .
    next
      case True
      then obtain child where
        run: "recurse d m (currentLevelOf lv d) v = Some child"
        and rest: "treeRequirements recurse lv v reqs (kids @ [child]) = Some kids'"
        using Cons.prems(2) Some parsed
        by (auto simp: Let_def alreadyExists_iff simp del: set_map split: option.splits if_splits)
      have "kidsDistinct (kids @ [child])"
        using rec [OF run] Cons.prems(1) True by (auto simp: kidsDistinct_def)
      from Cons.IH [OF this rest] show ?thesis .
    qed
  qed
qed

lemma treeLevel_distinct:
  assumes rec: "\<And>d m c v tree. recurse d m c v = Some tree \<Longrightarrow>
      node_structure tree = d \<and> node_targetLevel tree = m \<and> siblingsDistinct tree"
    and "kidsDistinct kids"
    and "treeLevel recurse lv v sm ld (cs, tm, kids) = Some (cs', tm', kids')"
  shows "kidsDistinct kids'"
proof (cases "requirements ld")
  case None
  then show ?thesis using assms(2,3) by (simp add: treeLevel_def Let_def)
next
  case (Some reqs)
  then have "treeRequirements recurse lv v reqs kids = Some kids'"
    using assms(3) by (simp add: treeLevel_def Let_def split: option.splits)
  with assms(2) show ?thesis by (rule treeRequirements_distinct [rotated]) (erule rec)
qed

lemma treeLevels_distinct:
  assumes rec: "\<And>d m c v tree. recurse d m c v = Some tree \<Longrightarrow>
      node_structure tree = d \<and> node_targetLevel tree = m \<and> siblingsDistinct tree"
    and "kidsDistinct kids"
    and "treeLevels recurse lv v sm sdo lvls (cs, tm, kids) = Some (cs', tm', kids')"
  shows "kidsDistinct kids'"
  using assms(2,3)
proof (induction lvls arbitrary: cs tm kids)
  case Nil
  then show ?case by simp
next
  case (Cons lvl lvls)
  show ?case
  proof (cases "case sdo of None \<Rightarrow> None | Some sd \<Rightarrow> map_of (levels sd) lvl")
    case None
    then have "treeLevels recurse lv v sm sdo lvls (cs, tm, kids) = Some (cs', tm', kids')"
      using Cons.prems(2) by simp
    from Cons.IH [OF Cons.prems(1) this] show ?thesis .
  next
    case (Some ld)
    then obtain cs1 tm1 kids1 where
      one: "treeLevel recurse lv v sm ld (cs, tm, kids) = Some (cs1, tm1, kids1)"
      and rest: "treeLevels recurse lv v sm sdo lvls (cs1, tm1, kids1) = Some (cs', tm', kids')"
      using Cons.prems(2) by (auto split: option.splits)
    have "kidsDistinct kids1"
      by (rule treeLevel_distinct [rotated, OF Cons.prems(1) one]) (erule rec)
    from Cons.IH [OF this rest] show ?thesis .
  qed
qed

lemma buildBody_distinct:
  assumes rec: "\<And>d m c v tree. recurse d m c v = Some tree \<Longrightarrow>
      node_structure tree = d \<and> node_targetLevel tree = m \<and> siblingsDistinct tree"
    and "buildBody recurse s t c db lv b v = Some tree"
  shows "node_structure tree = s \<and> node_targetLevel tree = t \<and> siblingsDistinct tree"
proof (cases "t \<le> (case c of None \<Rightarrow> currentLevelOf lv s | Some c' \<Rightarrow> c')")
  case True
  then show ?thesis using assms(2) by (auto simp: buildBody_def)
next
  case False
  then obtain cs tm kids where
    lvls: "treeLevels recurse lv v (b / 100) (map_of db s)
       [(case c of None \<Rightarrow> currentLevelOf lv s | Some c' \<Rightarrow> c') + 1 .. t] ([], 0, []) = Some (cs, tm, kids)"
    and tree: "tree = Node s (case c of None \<Rightarrow> currentLevelOf lv s | Some c' \<Rightarrow> c') t cs tm kids"
    using assms(2) by (auto simp: buildBody_def Let_def split: option.splits)
  have "kidsDistinct []" by (simp add: kidsDistinct_def)
  then have "kidsDistinct kids"
    using lvls by (rule treeLevels_distinct [rotated]) (erule rec)
  then show ?thesis unfolding tree by (simp add: kidsDistinct_def)
qed

lemma build_distinct:
  "buildDependencyTree depth s t c db lv b v = Some tree \<Longrightarrow>
   node_structure tree = s \<and> node_targetLevel tree = t \<and> siblingsDistinct tree"
proof (induction depth arbitrary: s t c v tree)
  case 0
  then show ?case by simp
next
  case (Suc depth)
  from Suc.prems have "buildBody (\<lambda>d m c' v'.
      buildDependencyTree depth d m (Some c') db lv b v') s t c db lv b v = Some tree"
    by simp
  then show ?case by (rule buildBody_distinct [rotated]) (erule Suc.IH)
qed

lemma shared_parse:
  "parseRequirement ''Level 2 B'' = Some (''B'', 2)"
  "parseRequirement ''Level 3 B'' = Some (''B'', 3)"
  "parseRequirement ''Level 4 B'' = Some (''B'', 4)"
  "parseRequirement ''Level 2 C'' = Some (''C'', 2)"
  by code_simp+

lemma shared_tree:
  "buildDependencyTree 3 ''A'' 3 (Some 1) (sharedPrerequisite ''Level 3 B'') Map.empty 0 {} =
     Some (Node ''A'' 1 3 [] 0
             [Node ''B'' 1 2 [(''stone'', 10)] 0 [],
              Node ''B'' 1 3 [(''stone'', 110)] 0 [],
              Node ''C'' 1 2 [] 0 [Node ''B'' 1 3 [(''stone'', 110)] 0 []]])"
  by (simp add: numeral_3_eq_3 buildBody_def sharedPrerequisite_def treeLevel_def
      shared_parse currentLevelOf_def addTreeCost_def addAmount_def getOrZero_def upto_rec1)

text \<open>
  C9.  In every tree that \<open>buildDependencyTree\<close> returns no node has two direct children
  for the same structure and target level, at any depth of the tree.  Children of
  different nodes are not compared: in the example database, where level 3 of \<open>B\<close> is
  required by \<open>A\<close> itself and by \<open>A\<close>'s prerequisite \<open>C\<close>, the tree holds the subtree for
  level 3 of \<open>B\<close> twice, once under \<open>A\<close> and once under \<open>C\<close>.
\<close>

theorem siblings_only_deduplicated:
  "(\<forall>depth tree. buildDependencyTree depth s t c db lv b v = Some tree \<longrightarrow>
      siblingsDistinct tree) \<and>
   buildDependencyTree 3 ''A'' 3 (Some 1) (sharedPrerequisite ''Level 3 B'') Map.empty 0 {} =
     Some (Node ''A'' 1 3 [] 0
             [Node ''B'' 1 2 [(''stone'', 10)] 0 [],
              Node ''B'' 1 3 [(''stone'', 110)] 0 [],
              Node ''C'' 1 2 [] 0 [Node ''B'' 1 3 [(''stone'', 110)] 0 []]])"
  using build_distinct [of _ s t c db lv b v] shared_tree by blast

theorem siblings_only_deduplicated_witness:
  "siblingsDistinct
     (Node ''A'' 1 3 [] 0
        [Node ''B'' 1 2 [(''stone'', 10)] 0 [],
         Node ''B'' 1 3 [(''stone'', 110)] 0 [],
         Node ''C'' 1 2 [] 0 [Node ''B'' 1 3 [(''stone'', 110)] 0 []]])"
  using siblings_only_deduplicated [where s = "''A''" and t = 3 and c = "Some 1"
      and db = "sharedPrerequisite ''Level 3 B''" and lv = Map.empty and b = 0 and v = "{}"]
  by blast

section \<open>What the third pass charges\<close>

lemma dependencies_fold_addDependencyCost:
  "dependencies (fold addDependencyCost cs r) = dependencies r"
  by (induction cs arbitrary: r) (simp_all add: addDependencyCost_def)

lemma dependencies_addDependency:
  "dependencies (addDependency r d m dr) =
     dependencies r @ [\<lparr>name = d, level = m, resources = totalCosts dr, time = totalTime dr\<rparr>]"
  by (simp add: addDependency_def Let_def dependencies_fold_addDependencyCost)

lemma dependencies_fold_addIndividualCost:
  "dependencies (fold addIndividualCost cs r) = dependencies r"
  by (induction cs arbitrary: r) (simp_all add: addIndividualCost_def)

lemma dependencies_addLevel: "dependencies (addLevel sm ld r) = dependencies r"
  by (simp add: addLevel_def Let_def dependencies_fold_addIndividualCost split: option.split)

lemma dependencies_secondPass: "dependencies (secondPass sd c t sm r) = dependencies r"
proof -
  have "dependencies (fold (\<lambda>lvl r. case map_of (levels sd) lvl of
            None \<Rightarrow> r | Some levelData \<Rightarrow> addLevel sm levelData r) lvls r) = dependencies r"
    for lvls
    by (induction lvls arbitrary: r) (simp_all add: dependencies_addLevel split: option.split)
  then show ?thesis by (simp add: secondPass_def)
qed

lemma thirdPass_charges:
  assumes rec: "\<And>d m c vis ch r vis' ch'. recurse d m c (vis, ch) = Some (r, (vis', ch')) \<Longrightarrow>
      \<exists>new. ch' = ch @ new \<and> distinct (keysOf new) \<and> set (keysOf new) \<inter> vis = {} \<and>
        vis' = vis \<union> set (keysOf new)"
    and run: "thirdPass recurse lv deps r (vis, ch) = Some (r', (vis', ch'))"
  shows "\<exists>new. ch' = ch @ new \<and> distinct (keysOf new) \<and> set (keysOf new) \<inter> vis = {} \<and>
      vis' = vis \<union> set (keysOf new) \<and>
      set (map chargeOf (dependencies r')) \<subseteq> set (map chargeOf (dependencies r)) \<union> set new"
  using run
proof (induction deps arbitrary: r vis ch)
  case Nil
  then show ?case by (simp add: keysOf_def)
next
  case (Cons dep deps)
  obtain d m where dep: "dep = (d, m)" by (cases dep)
  show ?case
  proof (cases "m > currentLevelOf lv d \<and> depKey d m \<notin> vis")
    case False
    then have "thirdPass recurse lv deps r (vis, ch) = Some (r', (vis', ch'))"
      using Cons.prems unfolding dep by (auto simp: Let_def split: if_splits)
    from Cons.IH [OF this] show ?thesis .
  next
    case True
    then obtain dr vis1 ch1 where
      sub: "recurse d m (currentLevelOf lv d) (insert (depKey d m) vis, ch) = Some (dr, (vis1, ch1))"
      and rest: "thirdPass recurse lv deps (addDependency r d m dr) (vis1, ch1 @ [(d, m)])
                   = Some (r', (vis', ch'))"
      using Cons.prems unfolding dep
      by (auto simp: Let_def split: option.splits)
    from rec [OF sub] obtain new1 where
      n1: "ch1 = ch @ new1" "distinct (keysOf new1)"
        "set (keysOf new1) \<inter> insert (depKey d m) vis = {}"
        "vis1 = insert (depKey d m) vis \<union> set (keysOf new1)"
      by blast
    from Cons.IH [OF rest] obtain new2 where
      n2: "ch' = (ch1 @ [(d, m)]) @ new2" "distinct (keysOf new2)"
        "set (keysOf new2) \<inter> vis1 = {}"
        "vis' = vis1 \<union> set (keysOf new2)"
        "set (map chargeOf (dependencies r')) \<subseteq>
           set (map chargeOf (dependencies (addDependency r d m dr))) \<union> set new2"
      by blast
    let ?new = "new1 @ [(d, m)] @ new2"
    have k: "keysOf ?new = keysOf new1 @ [depKey d m] @ keysOf new2"
      by (simp add: keysOf_def)
    have a: "ch' = ch @ ?new" using n1(1) n2(1) by simp
    have b: "distinct (keysOf ?new)"
      unfolding k using n1(2,3,4) n2(2,3) by auto
    have c: "set (keysOf ?new) \<inter> vis = {}"
      unfolding k using n1(3,4) n2(3) True by auto
    have e: "vis' = vis \<union> set (keysOf ?new)"
      unfolding k using n1(4) n2(4) by auto
    have f: "set (map chargeOf (dependencies r')) \<subseteq> set (map chargeOf (dependencies r)) \<union> set ?new"
      using n2(5) by (auto simp: dependencies_addDependency chargeOf_def)
    from a b c e f show ?thesis by blast
  qed
qed

lemma calculateBody_charges:
  assumes rec: "\<And>d m c vis ch r vis' ch'. recurse d m c (vis, ch) = Some (r, (vis', ch')) \<Longrightarrow>
      \<exists>new. ch' = ch @ new \<and> distinct (keysOf new) \<and> set (keysOf new) \<inter> vis = {} \<and>
        vis' = vis \<union> set (keysOf new)"
    and run: "calculateBody recurse s t c b db lv (vis, ch) = Some (r, (vis', ch'))"
  shows "\<exists>new. ch' = ch @ new \<and> distinct (keysOf new) \<and> set (keysOf new) \<inter> vis = {} \<and>
      vis' = vis \<union> set (keysOf new) \<and> set (map chargeOf (dependencies r)) \<subseteq> set new"
proof (cases "map_of db s")
  case None
  then show ?thesis using run by (auto simp: calculateBody_def keysOf_def emptyResult_def)
next
  case (Some sd)
  define cur where "cur = (case c of None \<Rightarrow> currentLevelOf lv s | Some c' \<Rightarrow> c')"
  show ?thesis
  proof (cases "t \<le> cur")
    case True
    then show ?thesis using run Some
      by (auto simp: calculateBody_def keysOf_def emptyResult_def cur_def)
  next
    case False
    then have "thirdPass recurse lv (firstPass sd cur t)
        (secondPass sd cur t (b / 100) emptyResult) (vis, ch) = Some (r, (vis', ch'))"
      using run Some by (simp add: calculateBody_def Let_def cur_def)
    then have "\<exists>new. ch' = ch @ new \<and> distinct (keysOf new) \<and> set (keysOf new) \<inter> vis = {} \<and>
      vis' = vis \<union> set (keysOf new) \<and>
      set (map chargeOf (dependencies r)) \<subseteq>
        set (map chargeOf (dependencies (secondPass sd cur t (b / 100) emptyResult))) \<union> set new"
      by (rule thirdPass_charges [rotated]) (erule rec)
    then show ?thesis by (simp add: dependencies_secondPass emptyResult_def)
  qed
qed

lemma calculate_charges:
  "calculateResourcesRecursive depth s t c b db lv (vis, ch) = Some (r, (vis', ch')) \<Longrightarrow>
   \<exists>new. ch' = ch @ new \<and> distinct (keysOf new) \<and> set (keysOf new) \<inter> vis = {} \<and>
      vis' = vis \<union> set (keysOf new) \<and> set (map chargeOf (dependencies r)) \<subseteq> set new"
proof (induction depth arbitrary: s t c vis ch r vis' ch')
  case 0
  then show ?case by simp
next
  case (Suc depth)
  from Suc.prems have "calculateBody (\<lambda>d m c' st'.
      calculateResourcesRecursive depth d m (Some c') b db lv st') s t c b db lv (vis, ch)
      = Some (r, (vis', ch'))"
    by simp
  then show ?case
  proof (rule calculateBody_charges [rotated])
    fix d m c0 vis0 ch0 r0 vis0' ch0'
    assume "calculateResourcesRecursive depth d m (Some c0) b db lv (vis0, ch0) = Some (r0, (vis0', ch0'))"
    from Suc.IH [OF this]
    show "\<exists>new. ch0' = ch0 @ new \<and> distinct (keysOf new) \<and> set (keysOf new) \<inter> vis0 = {} \<and>
        vis0' = vis0 \<union> set (keysOf new)"
      by blast
  qed
qed

lemma distinct_keysOf: "distinct (keysOf charged) \<Longrightarrow> distinct charged"
  by (simp add: keysOf_def distinct_map)

lemma shared_depKey:
  "depKey ''B'' 2 = ''B-2''" "depKey ''B'' 3 = ''B-3''" "depKey ''B'' 4 = ''B-4''"
  "depKey ''C'' 2 = ''C-2''"
  by code_simp+

lemmas shared_eval =
  calculateBody_def sharedPrerequisite_def firstPass_def secondPass_def
  addLevel_def addIndividualCost_def addAmount_def getOrZero_def emptyResult_def
  collectRequirements_def currentLevelOf_def shared_depKey addDependency_def
  addDependencyCost_def upto_rec1 shared_parse trackMaximum_def

lemma shared_run_same:
  "calculateResourcesRecursive 3 ''A'' 3 (Some 1) 0 (sharedPrerequisite ''Level 3 B'')
     Map.empty ({}, []) =
   Some (\<lparr>individualCosts = [], dependencyCosts = [(''stone'', 110)],
           totalCosts = [(''stone'', 110)],
           dependencies =
             [\<lparr>name = ''B'', level = 3, resources = [(''stone'', 110)], time = 0\<rparr>,
              \<lparr>name = ''C'', level = 2, resources = [], time = 0\<rparr>],
           individualTimes = 0, dependencyTimes = 0, totalTime = 0\<rparr>,
         ({''B-3'', ''C-2''}, [(''B'', 3), (''C'', 2)]))"
  by (simp add: numeral_3_eq_3 shared_eval insert_commute)

lemma shared_run_higher:
  "calculateResourcesRecursive 3 ''A'' 3 (Some 1) 0 (sharedPrerequisite ''Level 4 B'')
     Map.empty ({}, []) =
   Some (\<lparr>individualCosts = [], dependencyCosts = [(''stone'', 1220)],
           totalCosts = [(''stone'', 1220)],
           dependencies =
             [\<lparr>name = ''B'', level = 3, resources = [(''stone'', 110)], time = 0\<rparr>,
              \<lparr>name = ''C'', level = 2, resources = [(''stone'', 1110)], time = 0\<rparr>],
           individualTimes = 0, dependencyTimes = 0, totalTime = 0\<rparr>,
         ({''B-3'', ''B-4'', ''C-2''}, [(''B'', 3), (''B'', 4), (''C'', 2)]))"
  by (simp add: numeral_3_eq_3 shared_eval insert_commute)

text \<open>
  C4.  A call with a fresh charge history returns, and in what it returns no pair of a
  prerequisite and its required level has been charged twice anywhere in the call tree:
  the keys of the charges are pairwise distinct, none was in the visited set before the
  call, the visited set has grown by exactly these keys, and every entry of the returned
  dependencies list is one of the charges.  An entry whose key is in the visited set is
  skipped without the recursive call being made.
\<close>

theorem each_key_charged_once:
  "(\<exists>depth r st'. calculateResourcesRecursive depth s t c b db lv (visited, []) = Some (r, st')) \<and>
   (\<forall>depth r visited' charged.
      calculateResourcesRecursive depth s t c b db lv (visited, []) = Some (r, (visited', charged)) \<longrightarrow>
        distinct charged \<and> distinct (keysOf charged) \<and> set (keysOf charged) \<inter> visited = {} \<and>
        visited' = visited \<union> set (keysOf charged) \<and>
        set (map chargeOf (dependencies r)) \<subseteq> set charged) \<and>
   (\<forall>recurse d m rest result charged.
      depKey d m \<in> visited \<longrightarrow>
        thirdPass recurse lv ((d, m) # rest) result (visited, charged) =
        thirdPass recurse lv rest result (visited, charged))"
proof (intro conjI allI impI)
  show "\<exists>depth r st'. calculateResourcesRecursive depth s t c b db lv (visited, []) = Some (r, st')"
    using calculate_returns_enough [of db s t c b lv "(visited, [])"] by blast
next
  fix depth r visited' charged
  assume run: "calculateResourcesRecursive depth s t c b db lv (visited, []) = Some (r, (visited', charged))"
  from calculate_charges [OF run]
  have *: "distinct (keysOf charged)" "set (keysOf charged) \<inter> visited = {}"
    "visited' = visited \<union> set (keysOf charged)"
    "set (map chargeOf (dependencies r)) \<subseteq> set charged"
    by auto
  show "distinct charged" using *(1) by (rule distinct_keysOf)
  show "distinct (keysOf charged)" by (rule *(1))
  show "set (keysOf charged) \<inter> visited = {}" by (rule *(2))
  show "visited' = visited \<union> set (keysOf charged)" by (rule *(3))
  show "set (map chargeOf (dependencies r)) \<subseteq> set charged" by (rule *(4))
next
  fix recurse d m rest result charged
  assume "depKey d m \<in> visited"
  then show "thirdPass recurse lv ((d, m) # rest) result (visited, charged) =
        thirdPass recurse lv rest result (visited, charged)"
    by (simp add: Let_def)
qed

theorem each_key_charged_once_witness:
  "\<exists>r visited'. calculateResourcesRecursive 3 ''A'' 3 (Some 1) 0
       (sharedPrerequisite ''Level 3 B'') Map.empty ({}, []) =
       Some (r, (visited', [(''B'', 3), (''C'', 2)])) \<and>
     distinct (keysOf [(''B'', 3), (''C'', 2)]) \<and>
     visited' = {} \<union> set (keysOf [(''B'', 3), (''C'', 2)])"
proof -
  note once = each_key_charged_once [where s = "''A''" and t = 3 and c = "Some 1" and b = 0
      and db = "sharedPrerequisite ''Level 3 B''" and lv = Map.empty and visited = "{}",
      THEN conjunct2, THEN conjunct1, rule_format, OF shared_run_same]
  have a: "distinct (keysOf [(''B'', 3), (''C'', 2)])"
    using once by (elim conjE)
  have b: "{''B-3'', ''C-2''} = {} \<union> set (keysOf [(''B'', 3), (''C'', 2)])"
    using once by (elim conjE)
  show ?thesis
    by (intro exI conjI) (rule shared_run_same a b)+
qed

section \<open>The speed bonus\<close>

lemma faster_level:
  fixes u :: rat
  assumes "0 \<le> u" and "- 100 < p1" and "p1 \<le> p2"
  shows "u / (1 + p2 / 100) \<le> u / (1 + p1 / 100)"
proof -
  have "0 < 1 + p1 / 100" using assms(2) by simp
  moreover have "1 + p1 / 100 \<le> 1 + p2 / 100" using assms(3) by simp
  ultimately show ?thesis using assms(1) by (simp add: frac_le)
qed

lemma nonNegativeTimes_level:
  assumes "nonNegativeTimes db" and "map_of db s = Some sd" and "map_of (levels sd) lvl = Some ld"
    and "upgrade_time ld = Some u"
  shows "0 \<le> u"
proof -
  have "(s, sd) \<in> set db" and "(lvl, ld) \<in> set (levels sd)"
    using assms(2,3) by (auto dest: map_of_SomeD)
  then show ?thesis using assms(1,4) by (fastforce simp: nonNegativeTimes_def list_all_iff)
qed

lemma timesRelated_faster:
  assumes "nonNegativeTimes db" and "- 100 < p1" and "p1 \<le> p2"
  shows "timesRelated (\<lambda>u1 u2. u2 \<le> u1) p1 p2 db"
  unfolding timesRelated_def
  using faster_level [OF nonNegativeTimes_level [OF assms(1)] assms(2,3)]
  by (auto simp: add_mono)

lemma timesRelated_any: "timesRelated (\<lambda>u1 u2. True) p1 p2 db"
  by (simp add: timesRelated_def)

lemma same_addIndividualCost:
  "sameCosts timeRel r1 r2 \<Longrightarrow> sameCosts timeRel (addIndividualCost e r1) (addIndividualCost e r2)"
  by (simp add: sameCosts_def addIndividualCost_def)

lemma same_addDependencyCost:
  "sameCosts timeRel r1 r2 \<Longrightarrow> sameCosts timeRel (addDependencyCost e r1) (addDependencyCost e r2)"
  by (simp add: sameCosts_def addDependencyCost_def)

lemma same_fold:
  assumes "\<And>e r1 r2. sameCosts timeRel r1 r2 \<Longrightarrow> sameCosts timeRel (f e r1) (f e r2)"
    and "sameCosts timeRel r1 r2"
  shows "sameCosts timeRel (fold f es r1) (fold f es r2)"
  using assms(2) by (induction es arbitrary: r1 r2) (simp_all add: assms(1))

lemma same_addLevel:
  assumes "sameCosts timeRel r1 r2" and "timesRelated timeRel p1 p2 db"
    and "map_of db s = Some sd" and "map_of (levels sd) lvl = Some ld"
  shows "sameCosts timeRel (addLevel (p1 / 100) ld r1) (addLevel (p2 / 100) ld r2)"
proof -
  define q1 where "q1 = (case costs ld of None \<Rightarrow> r1 | Some cs \<Rightarrow> fold addIndividualCost cs r1)"
  define q2 where "q2 = (case costs ld of None \<Rightarrow> r2 | Some cs \<Rightarrow> fold addIndividualCost cs r2)"
  have q: "sameCosts timeRel q1 q2"
    unfolding q1_def q2_def using assms(1)
    by (auto split: option.split intro: same_fold same_addIndividualCost)
  have add: "\<And>a b c d. timeRel a b \<Longrightarrow> timeRel c d \<Longrightarrow> timeRel (a + c) (b + d)"
    using assms(2) unfolding timesRelated_def by blast
  have step: "sameCosts timeRel
      (q1\<lparr>individualTimes := individualTimes q1 + u1, totalTime := totalTime q1 + u1\<rparr>)
      (q2\<lparr>individualTimes := individualTimes q2 + u2, totalTime := totalTime q2 + u2\<rparr>)"
    if "timeRel u1 u2" for u1 u2 :: rat
    using q that by (simp add: sameCosts_def add)
  show ?thesis
  proof (cases "upgrade_time ld")
    case None
    then show ?thesis using q by (simp add: addLevel_def q1_def q2_def)
  next
    case (Some u)
    have "timeRel (u / (1 + p1 / 100)) (u / (1 + p2 / 100))"
      using assms(2,3,4) Some unfolding timesRelated_def by blast
    from step [OF this] q
    show ?thesis by (simp add: addLevel_def Let_def Some q1_def q2_def)
  qed
qed

lemma same_secondPass:
  assumes "sameCosts timeRel r1 r2" and "timesRelated timeRel p1 p2 db" and "map_of db s = Some sd"
  shows "sameCosts timeRel (secondPass sd c t (p1 / 100) r1) (secondPass sd c t (p2 / 100) r2)"
proof -
  have "sameCosts timeRel
      (fold (\<lambda>lvl r. case map_of (levels sd) lvl of
               None \<Rightarrow> r | Some levelData \<Rightarrow> addLevel (p1 / 100) levelData r) lvls r1)
      (fold (\<lambda>lvl r. case map_of (levels sd) lvl of
               None \<Rightarrow> r | Some levelData \<Rightarrow> addLevel (p2 / 100) levelData r) lvls r2)"
    if "sameCosts timeRel r1 r2" for lvls r1 r2
    using that
  proof (induction lvls arbitrary: r1 r2)
    case Nil
    then show ?case by simp
  next
    case (Cons lvl lvls)
    show ?case
    proof (cases "map_of (levels sd) lvl")
      case None
      then show ?thesis using Cons by simp
    next
      case (Some ld)
      have "sameCosts timeRel (addLevel (p1 / 100) ld r1) (addLevel (p2 / 100) ld r2)"
        by (rule same_addLevel [OF Cons.prems assms(2,3) Some])
      from Cons.IH [OF this] show ?thesis using Some by simp
    qed
  qed
  from this [OF assms(1)] show ?thesis by (simp add: secondPass_def)
qed

lemma same_addDependency:
  assumes "sameCosts timeRel r1 r2" and "sameCosts timeRel dr1 dr2"
    and add: "\<And>a b c d. timeRel a b \<Longrightarrow> timeRel c d \<Longrightarrow> timeRel (a + c) (b + d)"
  shows "sameCosts timeRel (addDependency r1 d m dr1) (addDependency r2 d m dr2)"
proof -
  have tc: "totalCosts dr1 = totalCosts dr2" and tt: "timeRel (totalTime dr1) (totalTime dr2)"
    using assms(2) by (simp_all add: sameCosts_def)
  have q: "sameCosts timeRel (fold addDependencyCost (totalCosts dr1) r1)
             (fold addDependencyCost (totalCosts dr2) r2)"
    unfolding tc using assms(1) by (auto intro: same_fold same_addDependencyCost)
  show ?thesis
    using q tt unfolding addDependency_def Let_def tc
    by (simp add: sameCosts_def add list_all2_appendI)
qed

lemma same_thirdPass:
  assumes rec: "\<And>d m c st. sameRun timeRel (recurse1 d m c st) (recurse2 d m c st)"
    and add: "\<And>a b c d. timeRel a b \<Longrightarrow> timeRel c d \<Longrightarrow> timeRel (a + c) (b + d)"
    and "sameCosts timeRel r1 r2"
  shows "sameRun timeRel (thirdPass recurse1 lv deps r1 st) (thirdPass recurse2 lv deps r2 st)"
  using assms(3)
proof (induction deps arbitrary: r1 r2 st)
  case Nil
  then show ?case by (simp add: sameRun_def)
next
  case (Cons dep deps)
  obtain d m where dep: "dep = (d, m)" by (cases dep)
  obtain vis ch where st: "st = (vis, ch)" by (cases st)
  show ?case
  proof (cases "m > currentLevelOf lv d \<and> depKey d m \<notin> vis")
    case False
    then show ?thesis using Cons.IH [OF Cons.prems] unfolding dep st by (auto simp: Let_def)
  next
    case True
    let ?st1 = "(insert (depKey d m) vis, ch)"
    note sub = rec [of d m "currentLevelOf lv d" ?st1]
    show ?thesis
    proof (cases "recurse1 d m (currentLevelOf lv d) ?st1")
      case None
      then have "recurse2 d m (currentLevelOf lv d) ?st1 = None"
        using sub by (simp add: sameRun_def)
      then show ?thesis using None True unfolding dep st by (simp add: Let_def sameRun_def)
    next
      case (Some y1)
      then obtain y2 where y2: "recurse2 d m (currentLevelOf lv d) ?st1 = Some y2"
        and rel: "sameCosts timeRel (fst y1) (fst y2)" and same: "snd y1 = snd y2"
        using sub by (auto simp: sameRun_def split: option.splits)
      obtain dr1 vis1 ch1 where y1: "y1 = (dr1, (vis1, ch1))" by (cases y1) auto
      obtain dr2 where y2': "y2 = (dr2, (vis1, ch1))" using same y1 by (cases y2) auto
      have "sameCosts timeRel (addDependency r1 d m dr1) (addDependency r2 d m dr2)"
        using same_addDependency [OF Cons.prems _ add] rel y1 y2' by simp
      from Cons.IH [OF this, of "(vis1, ch1 @ [(d, m)])"]
      show ?thesis using True Some y2 unfolding dep st y1 y2' by (simp add: Let_def)
    qed
  qed
qed

lemma same_calculateBody:
  assumes rec: "\<And>d m c st. sameRun timeRel (recurse1 d m c st) (recurse2 d m c st)"
    and ok: "timesRelated timeRel p1 p2 db"
  shows "sameRun timeRel (calculateBody recurse1 s t c p1 db lv st)
           (calculateBody recurse2 s t c p2 db lv st)"
proof -
  have add: "\<And>a b c d. timeRel a b \<Longrightarrow> timeRel c d \<Longrightarrow> timeRel (a + c) (b + d)"
    using ok unfolding timesRelated_def by blast
  have e: "sameCosts timeRel emptyResult emptyResult"
    using ok by (simp add: sameCosts_def emptyResult_def timesRelated_def)
  show ?thesis
  proof (cases "map_of db s")
    case None
    then show ?thesis using e by (simp add: calculateBody_def sameRun_def)
  next
    case (Some sd)
    define cur where "cur = (case c of None \<Rightarrow> currentLevelOf lv s | Some c' \<Rightarrow> c')"
    show ?thesis
    proof (cases "t \<le> cur")
      case True
      then show ?thesis using Some e by (simp add: calculateBody_def sameRun_def cur_def)
    next
      case False
      have "sameRun timeRel
          (thirdPass recurse1 lv (firstPass sd cur t) (secondPass sd cur t (p1 / 100) emptyResult) st)
          (thirdPass recurse2 lv (firstPass sd cur t) (secondPass sd cur t (p2 / 100) emptyResult) st)"
        by (rule same_thirdPass [OF rec add same_secondPass [OF e ok Some]])
      then show ?thesis using False Some by (simp add: calculateBody_def Let_def cur_def)
    qed
  qed
qed

lemma same_calculate:
  assumes "timesRelated timeRel p1 p2 db"
  shows "sameRun timeRel (calculateResourcesRecursive depth s t c p1 db lv st)
           (calculateResourcesRecursive depth s t c p2 db lv st)"
proof (induction depth arbitrary: s t c st)
  case 0
  show ?case by (simp add: sameRun_def)
next
  case (Suc depth)
  show ?case
    unfolding calculateResourcesRecursive.simps
    by (rule same_calculateBody [OF Suc.IH assms])
qed

lemma same_runs:
  assumes ok: "timesRelated timeRel p1 p2 db"
    and run1: "calculateResourcesRecursive depth1 s t c p1 db lv st = Some (r1, st1)"
    and run2: "calculateResourcesRecursive depth2 s t c p2 db lv st = Some (r2, st2)"
  shows "sameCosts timeRel r1 r2 \<and> st1 = st2"
proof -
  let ?n = "max depth1 depth2"
  have a: "calculateResourcesRecursive ?n s t c p1 db lv st = Some (r1, st1)"
    by (rule calculate_depth_mono [OF run1]) simp
  have b: "calculateResourcesRecursive ?n s t c p2 db lv st = Some (r2, st2)"
    by (rule calculate_depth_mono [OF run2]) simp
  show ?thesis
    using same_calculate [OF ok, of ?n s t c lv st] unfolding a b
    by (simp add: sameRun_def)
qed

lemma individualTimes_fold_addIndividualCost:
  "individualTimes (fold addIndividualCost cs r) = individualTimes r"
  by (induction cs arbitrary: r) (simp_all add: addIndividualCost_def)

lemma individualTimes_addLevel:
  "individualTimes (addLevel (p / 100) ld r) =
     individualTimes r + (case upgrade_time ld of None \<Rightarrow> 0 | Some u \<Rightarrow> u / (1 + p / 100))"
  by (simp add: addLevel_def Let_def individualTimes_fold_addIndividualCost split: option.split)

lemma mine_run_slow:
  "calculateResourcesRecursive 2 ''Mine'' 3 (Some 1) (- 200)
     (mineDatabase noLevelData noLevelData) mineLevels ({}, []) =
   Some (\<lparr>individualCosts = [(''metal'', 300)],
           dependencyCosts = [(''wood'', 50)],
           totalCosts = [(''metal'', 300), (''wood'', 50)],
           dependencies = [\<lparr>name = ''Warehouse'', level = 2,
                            resources = [(''wood'', 50)], time = - 30\<rparr>],
           individualTimes = - 180, dependencyTimes = - 30, totalTime = - 210\<rparr>,
         ({''Warehouse-2''}, [(''Warehouse'', 2)]))"
  by (simp add: numeral_2_eq_2 calculateBody_def mineDatabase_def mineLevels_def firstPass_def
      secondPass_def addLevel_def addIndividualCost_def addAmount_def getOrZero_def emptyResult_def
      collectRequirements_def currentLevelOf_def mine_depKey addDependency_def
      addDependencyCost_def upto_rec1 mine_parse trackMaximum_def)

lemma mine_run_half:
  "calculateResourcesRecursive 2 ''Mine'' 3 (Some 1) 50
     (mineDatabase noLevelData noLevelData) mineLevels ({}, []) =
   Some (\<lparr>individualCosts = [(''metal'', 300)],
           dependencyCosts = [(''wood'', 50)],
           totalCosts = [(''metal'', 300), (''wood'', 50)],
           dependencies = [\<lparr>name = ''Warehouse'', level = 2,
                            resources = [(''wood'', 50)], time = 20\<rparr>],
           individualTimes = 120, dependencyTimes = 20, totalTime = 140\<rparr>,
         ({''Warehouse-2''}, [(''Warehouse'', 2)]))"
  by (simp add: numeral_2_eq_2 calculateBody_def mineDatabase_def mineLevels_def firstPass_def
      secondPass_def addLevel_def addIndividualCost_def addAmount_def getOrZero_def emptyResult_def
      collectRequirements_def currentLevelOf_def mine_depKey addDependency_def
      addDependencyCost_def upto_rec1 mine_parse trackMaximum_def)

lemma mine_nonNegativeTimes: "nonNegativeTimes (mineDatabase noLevelData noLevelData)"
  by (simp add: nonNegativeTimes_def mineDatabase_def noLevelData_def)

text \<open>
  C6 (amended).  Every level's \<open>upgrade_time\<close> is divided by \<open>1 + bonus / 100\<close> before it is
  added.  Whatever the two bonuses are, both calls return, with the same cost maps, the
  same dependency names, levels and resources, and the same visited set.  When no level
  of the database has a negative time and \<open>- 100 < p1 \<le> p2\<close>, every time of the result at
  \<open>p2\<close> is at most the corresponding time at \<open>p1\<close>.
\<close>

theorem bonus_divides_times:
  "(\<exists>depth r1 st1 r2 st2.
      calculateResourcesRecursive depth s t c p1 db lv st = Some (r1, st1) \<and>
      calculateResourcesRecursive depth s t c p2 db lv st = Some (r2, st2)) \<and>
   (\<forall>depth1 depth2 r1 r2 st1 st2.
      calculateResourcesRecursive depth1 s t c p1 db lv st = Some (r1, st1) \<longrightarrow>
      calculateResourcesRecursive depth2 s t c p2 db lv st = Some (r2, st2) \<longrightarrow>
        sameCosts (\<lambda>u1 u2. True) r1 r2 \<and> st1 = st2 \<and>
        (nonNegativeTimes db \<and> - 100 < p1 \<and> p1 \<le> p2 \<longrightarrow> sameCosts (\<lambda>u1 u2. u2 \<le> u1) r1 r2)) \<and>
   (\<forall>ld r. individualTimes (addLevel (p1 / 100) ld r) =
        individualTimes r + (case upgrade_time ld of None \<Rightarrow> 0 | Some u \<Rightarrow> u / (1 + p1 / 100)))"
proof (intro conjI allI impI)
  obtain r1 st1 where "calculateResourcesRecursive (Suc (length (requirementKeys db)))
      s t c p1 db lv st = Some (r1, st1)"
    using calculate_returns_enough [of db s t c p1 lv st] by blast
  moreover obtain r2 st2 where "calculateResourcesRecursive (Suc (length (requirementKeys db)))
      s t c p2 db lv st = Some (r2, st2)"
    using calculate_returns_enough [of db s t c p2 lv st] by blast
  ultimately show "\<exists>depth r1 st1 r2 st2.
      calculateResourcesRecursive depth s t c p1 db lv st = Some (r1, st1) \<and>
      calculateResourcesRecursive depth s t c p2 db lv st = Some (r2, st2)"
    by blast
next
  fix depth1 depth2 r1 r2 st1 st2
  assume run1: "calculateResourcesRecursive depth1 s t c p1 db lv st = Some (r1, st1)"
    and run2: "calculateResourcesRecursive depth2 s t c p2 db lv st = Some (r2, st2)"
  from same_runs [OF timesRelated_any run1 run2]
  show "sameCosts (\<lambda>u1 u2. True) r1 r2" and "st1 = st2" by simp_all
  assume "nonNegativeTimes db \<and> - 100 < p1 \<and> p1 \<le> p2"
  then have "timesRelated (\<lambda>u1 u2. u2 \<le> u1) p1 p2 db"
    by (simp add: timesRelated_faster)
  from same_runs [OF this run1 run2]
  show "sameCosts (\<lambda>u1 u2. u2 \<le> u1) r1 r2" by simp
next
  fix ld r
  show "individualTimes (addLevel (p1 / 100) ld r) =
        individualTimes r + (case upgrade_time ld of None \<Rightarrow> 0 | Some u \<Rightarrow> u / (1 + p1 / 100))"
    by (rule individualTimes_addLevel)
qed

theorem bonus_divides_times_witness:
  "nonNegativeTimes (mineDatabase noLevelData noLevelData) \<and> (- 100 :: rat) < 0 \<and> (0 :: rat) \<le> 50 \<and>
   sameCosts (\<lambda>u1 u2. u2 \<le> u1)
     \<lparr>individualCosts = [(''metal'', 300)], dependencyCosts = [(''wood'', 50)],
       totalCosts = [(''metal'', 300), (''wood'', 50)],
       dependencies = [\<lparr>name = ''Warehouse'', level = 2,
                        resources = [(''wood'', 50)], time = 30\<rparr>],
       individualTimes = 180, dependencyTimes = 30, totalTime = 210\<rparr>
     \<lparr>individualCosts = [(''metal'', 300)], dependencyCosts = [(''wood'', 50)],
       totalCosts = [(''metal'', 300), (''wood'', 50)],
       dependencies = [\<lparr>name = ''Warehouse'', level = 2,
                        resources = [(''wood'', 50)], time = 20\<rparr>],
       individualTimes = 120, dependencyTimes = 20, totalTime = 140\<rparr>"
proof -
  have hyp: "nonNegativeTimes (mineDatabase noLevelData noLevelData) \<and> (- 100 :: rat) < 0 \<and>
      (0 :: rat) \<le> 50"
    using mine_nonNegativeTimes by simp
  have run0: "calculateResourcesRecursive 2 ''Mine'' 3 (Some 1) 0
      (mineDatabase noLevelData noLevelData) mineLevels ({}, []) =
    Some (\<lparr>individualCosts = [(''metal'', 300)],
           dependencyCosts = [(''wood'', 50)],
           totalCosts = [(''metal'', 300), (''wood'', 50)],
           dependencies = [\<lparr>name = ''Warehouse'', level = 2,
                            resources = [(''wood'', 50)], time = 30\<rparr>],
           individualTimes = 180, dependencyTimes = 30, totalTime = 210\<rparr>,
         ({''Warehouse-2''}, [(''Warehouse'', 2)]))"
    using mine_run [of 0] by (simp add: numeral_2_eq_2)
  note inst = bonus_divides_times [where s = "''Mine''" and t = 3 and c = "Some 1"
      and ?p1.0 = 0 and ?p2.0 = 50 and db = "mineDatabase noLevelData noLevelData"
      and lv = mineLevels and st = "({}, [])",
      THEN conjunct2, THEN conjunct1, rule_format, OF run0 mine_run_half,
      THEN conjunct2, THEN conjunct2, rule_format, OF hyp]
  show ?thesis using hyp inst by (intro conjI) (elim conjE, assumption)+
qed

text \<open>
  The claim as the specification states it, for any two bonuses \<open>p1 \<le> p2\<close>, fails below
  \<open>- 100\<close>, where the divisor is negative: at the bonus \<open>- 200\<close> the Mine scenario takes
  \<open>- 210\<close> seconds in total, at the larger bonus 0 it takes 210.
\<close>

theorem bonus_monotone_counterexample:
  "calculateResourcesRecursive 2 ''Mine'' 3 (Some 1) (- 200)
     (mineDatabase noLevelData noLevelData) mineLevels ({}, []) =
     Some (\<lparr>individualCosts = [(''metal'', 300)],
             dependencyCosts = [(''wood'', 50)],
             totalCosts = [(''metal'', 300), (''wood'', 50)],
             dependencies = [\<lparr>name = ''Warehouse'', level = 2,
                              resources = [(''wood'', 50)], time = - 30\<rparr>],
             individualTimes = - 180, dependencyTimes = - 30, totalTime = - 210\<rparr>,
           ({''Warehouse-2''}, [(''Warehouse'', 2)])) \<and>
   calculateResourcesRecursive 2 ''Mine'' 3 (Some 1) 0
     (mineDatabase noLevelData noLevelData) mineLevels ({}, []) =
     Some (\<lparr>individualCosts = [(''metal'', 300)],
             dependencyCosts = [(''wood'', 50)],
             totalCosts = [(''metal'', 300), (''wood'', 50)],
             dependencies = [\<lparr>name = ''Warehouse'', level = 2,
                              resources = [(''wood'', 50)], time = 30\<rparr>],
             individualTimes = 180, dependencyTimes = 30, totalTime = 210\<rparr>,
           ({''Warehouse-2''}, [(''Warehouse'', 2)])) \<and>
   (- 200 :: rat) \<le> 0 \<and> \<not> (210 :: rat) \<le> - 210"
  using mine_run_slow mine_run [of 0 noLevelData noLevelData]
  by (simp add: numeral_2_eq_2)

section \<open>Properties of parseRequirement\<close>

lemma stripPrefix_Some: "stripPrefix p s = Some r \<longleftrightarrow> s = p @ r"
  by (induction p s rule: stripPrefix.induct) auto

lemma digitValue_nonneg: "isDigit c \<Longrightarrow> 0 \<le> digitValue c"
  by (auto simp: isDigit_def digitValue_def)

lemma parseInt_nonneg:
  assumes "\<forall>c \<in> set ds. isDigit c"
  shows "0 \<le> parseInt ds"
proof -
  have "0 \<le> foldl (\<lambda>a c. 10 * a + digitValue c) a ds" if "0 \<le> a" for a
    using that assms
  proof (induction ds arbitrary: a)
    case Nil
    then show ?case by simp
  next
    case (Cons c ds)
    have "0 \<le> 10 * a + digitValue c" using Cons.prems digitValue_nonneg [of c] by simp
    from Cons.IH [OF this] Cons.prems(2) show ?case by simp
  qed
  then show ?thesis by (simp add: parseInt_def)
qed



lemma matchName_Some:
  "matchName j r = Some nm \<Longrightarrow>
   \<exists>i. 1 \<le> i \<and> i \<le> j \<and> nm = takeWhile (\<lambda>c. \<not> isLineTerminator c) (drop i r) \<and> nm \<noteq> []"
proof (induction j)
  case 0
  then show ?case by simp
next
  case (Suc j)
  show ?case
  proof (cases "takeWhile (\<lambda>c. \<not> isLineTerminator c) (drop (Suc j) r) = []")
    case True
    then have "matchName j r = Some nm" using Suc.prems by (simp add: Let_def)
    from Suc.IH [OF this] show ?thesis by (auto intro: le_SucI)
  next
    case False
    then have "nm = takeWhile (\<lambda>c. \<not> isLineTerminator c) (drop (Suc j) r)"
      using Suc.prems by (simp add: Let_def)
    then show ?thesis using False by (intro exI [of _ "Suc j"]) simp
  qed
qed


lemma take_within_takeWhile:
  assumes "i \<le> length (takeWhile P xs)"
  shows "\<forall>c \<in> set (take i xs). P c"
proof -
  have "take i xs = take i (takeWhile P xs @ dropWhile P xs)" by simp
  also have "\<dots> = take i (takeWhile P xs)" using assms by (simp del: takeWhile_dropWhile_id)
  finally have "set (take i xs) \<subseteq> set (takeWhile P xs)" by (simp add: set_take_subset)
  then show ?thesis by (auto dest: set_takeWhileD)
qed

lemma matchHere_Some:
  assumes "matchHere s = Some (nm, l)"
  shows "\<exists>ds ws post. matchedAs s ds ws nm post \<and> l = parseInt ds"
proof -
  from assms obtain r1 where r1: "stripPrefix ''Level '' s = Some r1"
    by (auto simp: matchHere_def split: option.splits)
  define ds where "ds = takeWhile isDigit r1"
  define r2 where "r2 = dropWhile isDigit r1"
  have s: "s = ''Level '' @ ds @ r2"
    using r1 unfolding stripPrefix_Some ds_def r2_def by simp
  from assms r1 have ds: "ds \<noteq> []"
    and nm: "matchName (length (takeWhile isSpace r2)) r2 = Some nm" and l: "l = parseInt ds"
    unfolding matchHere_def ds_def r2_def
    by (auto simp: Let_def split: option.splits if_splits)
  from matchName_Some [OF nm] obtain i where
    i: "1 \<le> i" "i \<le> length (takeWhile isSpace r2)"
    and nm_eq: "nm = takeWhile (\<lambda>c. \<not> isLineTerminator c) (drop i r2)" and nm_ne: "nm \<noteq> []"
    by blast
  define ws where "ws = take i r2"
  define post where "post = dropWhile (\<lambda>c. \<not> isLineTerminator c) (drop i r2)"
  have "r2 = ws @ nm @ post"
    unfolding ws_def nm_eq post_def by simp
  moreover have "\<forall>c \<in> set ds. isDigit c" unfolding ds_def by (auto dest: set_takeWhileD)
  moreover have "\<forall>c \<in> set ws. isSpace c" unfolding ws_def by (rule take_within_takeWhile [OF i(2)])
  moreover have "ws \<noteq> []"
  proof -
    have "i \<le> length r2" using i(2) length_takeWhile_le [of isSpace r2] by simp
    then show ?thesis using i(1) unfolding ws_def by auto
  qed
  moreover have "\<forall>c \<in> set nm. \<not> isLineTerminator c" unfolding nm_eq by (auto dest: set_takeWhileD)
  moreover have "post = [] \<or> isLineTerminator (hd post)"
    unfolding post_def using hd_dropWhile [of "\<lambda>c. \<not> isLineTerminator c" "drop i r2"] by auto
  ultimately have "matchedAs s ds ws nm post"
    using s ds nm_ne by (simp add: matchedAs_def)
  then show ?thesis using l by blast
qed

lemma parseRequirement_Some:
  "parseRequirement s = Some (nm, l) \<Longrightarrow>
   \<exists>pre ds ws post. s = pre @ ''Level '' @ ds @ ws @ nm @ post \<and>
      ds \<noteq> [] \<and> (\<forall>c \<in> set ds. isDigit c) \<and> ws \<noteq> [] \<and> (\<forall>c \<in> set ws. isSpace c) \<and>
      nm \<noteq> [] \<and> (\<forall>c \<in> set nm. \<not> isLineTerminator c) \<and>
      (post = [] \<or> isLineTerminator (hd post)) \<and> l = parseInt ds"
proof (induction s rule: parseRequirement.induct)
  case (1 s)
  show ?case
  proof (cases "matchHere s")
    case (Some parsed)
    then have "matchHere s = Some (nm, l)"
      using "1.prems" by (simp add: parseRequirement.simps [of s])
    from matchHere_Some [OF this] obtain ds ws post where
      "matchedAs s ds ws nm post" and "l = parseInt ds" by blast
    then have "s = [] @ ''Level '' @ ds @ ws @ nm @ post \<and>
      ds \<noteq> [] \<and> (\<forall>c \<in> set ds. isDigit c) \<and> ws \<noteq> [] \<and> (\<forall>c \<in> set ws. isSpace c) \<and>
      nm \<noteq> [] \<and> (\<forall>c \<in> set nm. \<not> isLineTerminator c) \<and>
      (post = [] \<or> isLineTerminator (hd post)) \<and> l = parseInt ds"
      by (simp add: matchedAs_def)
    then show ?thesis by blast
  next
    case None
    then obtain c cs where s: "s = c # cs" and rest: "parseRequirement cs = Some (nm, l)"
      using "1.prems" by (auto simp: parseRequirement.simps [of s] split: list.splits)
    from "1.IH" [OF None s rest] obtain pre ds ws post where
      "cs = pre @ ''Level '' @ ds @ ws @ nm @ post \<and>
      ds \<noteq> [] \<and> (\<forall>c \<in> set ds. isDigit c) \<and> ws \<noteq> [] \<and> (\<forall>c \<in> set ws. isSpace c) \<and>
      nm \<noteq> [] \<and> (\<forall>c \<in> set nm. \<not> isLineTerminator c) \<and>
      (post = [] \<or> isLineTerminator (hd post)) \<and> l = parseInt ds"
      by blast
    then have "s = (c # pre) @ ''Level '' @ ds @ ws @ nm @ post \<and>
      ds \<noteq> [] \<and> (\<forall>c \<in> set ds. isDigit c) \<and> ws \<noteq> [] \<and> (\<forall>c \<in> set ws. isSpace c) \<and>
      nm \<noteq> [] \<and> (\<forall>c \<in> set nm. \<not> isLineTerminator c) \<and>
      (post = [] \<or> isLineTerminator (hd post)) \<and> l = parseInt ds"
      using s by simp
    then show ?thesis by blast
  qed
qed

lemma parseRequirement_level_nonneg:
  "parseRequirement s = Some (nm, l) \<Longrightarrow> 0 \<le> l"
  using parseRequirement_Some [of s nm l] parseInt_nonneg by blast









section \<open>The first pass keeps the highest demand\<close>

lemma maxOfDemands_update:
  assumes inv: "maxOfDemands acc seen"
    and le: "\<forall>q \<in> set seen. fst q = fst p \<longrightarrow> snd q \<le> snd p"
  shows "maxOfDemands (AList.update (fst p) (snd p) acc) (seen @ [p])"
  unfolding maxOfDemands_def
proof (intro conjI allI impI ballI)
  show "distinct (map fst (AList.update (fst p) (snd p) acc))"
    using inv by (simp add: maxOfDemands_def distinct_update)
next
  fix nm l
  assume "map_of (AList.update (fst p) (snd p) acc) nm = Some l"
  then have "(nm = fst p \<and> l = snd p) \<or> map_of acc nm = Some l"
    by (auto simp: update_conv' simp del: map_of_eq_Some_iff split: if_splits)
  then show "(nm, l) \<in> set (seen @ [p])"
    using inv unfolding maxOfDemands_def by (cases p) auto
next
  fix q
  assume q: "q \<in> set (seen @ [p])"
  show "\<exists>l. map_of (AList.update (fst p) (snd p) acc) (fst q) = Some l \<and> snd q \<le> l"
  proof (cases "fst q = fst p")
    case True
    then have "snd q \<le> snd p" using q le by auto
    then show ?thesis using True by (simp add: update_conv')
  next
    case False
    then have "q \<in> set seen" using q by auto
    then obtain l where "map_of acc (fst q) = Some l" and "snd q \<le> l"
      using inv unfolding maxOfDemands_def by blast
    then show ?thesis using False by (simp add: update_conv')
  qed
qed

lemma trackMaximum_max:
  assumes inv: "maxOfDemands acc seen" and p: "0 \<le> snd p" and nn: "\<forall>q \<in> set seen. 0 \<le> snd q"
  shows "maxOfDemands (trackMaximum acc p) (seen @ [p])"
proof (cases "map_of acc (fst p)")
  case None
  then have tm: "trackMaximum acc p = AList.update (fst p) (snd p) acc"
    by (simp add: trackMaximum_def)
  have "\<forall>q \<in> set seen. fst q \<noteq> fst p"
  proof
    fix q assume "q \<in> set seen"
    then obtain l where "map_of acc (fst q) = Some l"
      using inv unfolding maxOfDemands_def by blast
    then show "fst q \<noteq> fst p" using None by auto
  qed
  then show ?thesis unfolding tm by (intro maxOfDemands_update [OF inv]) simp
next
  case (Some cur)
  have seen_le: "\<forall>q \<in> set seen. fst q = fst p \<longrightarrow> snd q \<le> cur"
  proof (intro ballI impI)
    fix q assume "q \<in> set seen" and "fst q = fst p"
    then obtain l where "map_of acc (fst p) = Some l" and "snd q \<le> l"
      using inv unfolding maxOfDemands_def by metis
    then show "snd q \<le> cur" using Some by simp
  qed
  show ?thesis
  proof (cases "cur = 0 \<or> snd p > cur")
    case True
    then have tm: "trackMaximum acc p = AList.update (fst p) (snd p) acc"
      using Some by (simp add: trackMaximum_def)
    have "cur \<le> snd p" using True p by auto
    then have "\<forall>q \<in> set seen. fst q = fst p \<longrightarrow> snd q \<le> snd p"
      using seen_le by force
    then show ?thesis unfolding tm by (rule maxOfDemands_update [OF inv])
  next
    case False
    then have tm: "trackMaximum acc p = acc" using Some by (simp add: trackMaximum_def)
    have pc: "snd p \<le> cur" using False by simp
    show ?thesis
      unfolding maxOfDemands_def tm
    proof (intro conjI allI impI ballI)
      show "distinct (map fst acc)" using inv by (simp add: maxOfDemands_def)
    next
      fix nm l assume "map_of acc nm = Some l"
      then show "(nm, l) \<in> set (seen @ [p])"
        using inv unfolding maxOfDemands_def by simp
    next
      fix q assume "q \<in> set (seen @ [p])"
      then have "q \<in> set seen \<or> q = p" by auto
      then show "\<exists>l. map_of acc (fst q) = Some l \<and> snd q \<le> l"
        using inv Some pc unfolding maxOfDemands_def by blast
    qed
  qed
qed

lemma map_filter_parse_nonneg:
  "\<forall>q \<in> set (List.map_filter parseRequirement reqs). 0 \<le> snd q"
  by (auto simp: List.map_filter_def dest: parseRequirement_level_nonneg)

lemma collectRequirements_max:
  assumes "maxOfDemands acc seen" and "\<forall>q \<in> set seen. 0 \<le> snd q"
  shows "maxOfDemands (collectRequirements ld acc)
           (seen @ (case requirements ld of None \<Rightarrow> []
                    | Some reqs \<Rightarrow> List.map_filter parseRequirement reqs))"
proof (cases "requirements ld")
  case None
  then show ?thesis using assms(1) by (simp add: collectRequirements_def)
next
  case (Some reqs)
  have "maxOfDemands (fold (\<lambda>requirement acc. case parseRequirement requirement of
            None \<Rightarrow> acc | Some parsed \<Rightarrow> trackMaximum acc parsed) reqs acc)
          (seen @ List.map_filter parseRequirement reqs)"
    using assms
  proof (induction reqs arbitrary: acc seen)
    case Nil
    then show ?case by (simp add: List.map_filter_simps)
  next
    case (Cons req reqs)
    show ?case
    proof (cases "parseRequirement req")
      case None
      then show ?thesis using Cons.IH [OF Cons.prems] by (simp add: List.map_filter_simps)
    next
      case (Some p)
      have p: "0 \<le> snd p" using parseRequirement_level_nonneg [of req "fst p" "snd p"] Some by simp
      have "maxOfDemands (trackMaximum acc p) (seen @ [p])"
        by (rule trackMaximum_max [OF Cons.prems(1) p Cons.prems(2)])
      moreover have "\<forall>q \<in> set (seen @ [p]). 0 \<le> snd q" using Cons.prems(2) p by simp
      ultimately show ?thesis using Cons.IH [of "trackMaximum acc p" "seen @ [p]"] Some
        by (simp add: List.map_filter_simps)
    qed
  qed
  then show ?thesis by (simp add: collectRequirements_def Some)
qed

lemma demands_nonneg: "\<forall>q \<in> set (demands sd c t). 0 \<le> snd q"
  using map_filter_parse_nonneg
  by (fastforce simp: demands_def split: option.splits)

lemma firstPass_max: "maxOfDemands (firstPass sd c t) (demands sd c t)"
proof -
  let ?of = "\<lambda>lvl. case map_of (levels sd) lvl of
      None \<Rightarrow> []
    | Some levelData \<Rightarrow> (case requirements levelData of
        None \<Rightarrow> [] | Some reqs \<Rightarrow> List.map_filter parseRequirement reqs)"
  have nn: "\<forall>q \<in> set (?of lvl). 0 \<le> snd q" for lvl
    using map_filter_parse_nonneg by (fastforce split: option.splits)
  have "maxOfDemands
      (fold (\<lambda>lvl acc. case map_of (levels sd) lvl of
               None \<Rightarrow> acc | Some levelData \<Rightarrow> collectRequirements levelData acc) lvls acc)
      (seen @ concat (map ?of lvls))"
    if "maxOfDemands acc seen" and "\<forall>q \<in> set seen. 0 \<le> snd q" for lvls acc seen
    using that
  proof (induction lvls arbitrary: acc seen)
    case Nil
    then show ?case by simp
  next
    case (Cons lvl lvls)
    let ?acc1 = "case map_of (levels sd) lvl of
        None \<Rightarrow> acc | Some levelData \<Rightarrow> collectRequirements levelData acc"
    have a: "maxOfDemands ?acc1 (seen @ ?of lvl)"
      using Cons.prems collectRequirements_max by (auto split: option.split)
    have b: "\<forall>q \<in> set (seen @ ?of lvl). 0 \<le> snd q"
    proof
      fix q assume "q \<in> set (seen @ ?of lvl)"
      then have "q \<in> set seen \<or> q \<in> set (?of lvl)" by (simp only: set_append Un_iff)
      then show "0 \<le> snd q" using Cons.prems(2) nn [of lvl] by blast
    qed
    from Cons.IH [OF a b] show ?case by simp
  qed
  note step = this
  have base: "maxOfDemands [] []" by (simp add: maxOfDemands_def)
  have "\<forall>q \<in> set ([] :: (string \<times> int) list). 0 \<le> snd q" by simp
  from step [OF base this, of "[c + 1 .. t]"] show ?thesis
    unfolding firstPass_def demands_def by simp
qed

lemma firstPass_entries:
  "distinct (map fst (firstPass sd c t))"
  "p \<in> set (firstPass sd c t) \<Longrightarrow>
     p \<in> set (demands sd c t) \<and> (\<forall>q \<in> set (demands sd c t). fst q = fst p \<longrightarrow> snd q \<le> snd p)"
proof -
  note inv = firstPass_max [of sd c t, unfolded maxOfDemands_def]
  show d: "distinct (map fst (firstPass sd c t))" using inv by simp
  assume mem: "p \<in> set (firstPass sd c t)"
  have look: "map_of (firstPass sd c t) (fst p) = Some (snd p)"
    using mem by (simp add: map_of_eq_Some_iff [OF d])
  have "(fst p, snd p) \<in> set (demands sd c t)" using inv look by blast
  moreover have "\<forall>q \<in> set (demands sd c t). fst q = fst p \<longrightarrow> snd q \<le> snd p"
  proof (intro ballI impI)
    fix q assume "q \<in> set (demands sd c t)" and "fst q = fst p"
    then obtain l where "map_of (firstPass sd c t) (fst p) = Some l" and "snd q \<le> l"
      using inv by metis
    then show "snd q \<le> snd p" using look by simp
  qed
  ultimately show "p \<in> set (demands sd c t) \<and>
      (\<forall>q \<in> set (demands sd c t). fst q = fst p \<longrightarrow> snd q \<le> snd p)"
    by simp
qed

section \<open>One entry per prerequisite in a call's dependencies\<close>

lemma thirdPass_dependencies:
  assumes "thirdPass recurse lv deps r st = Some (r', st')"
    and "distinct (map name (dependencies r) @ map fst deps)"
  shows "distinct (map name (dependencies r')) \<and>
         set (map chargeOf (dependencies r')) \<subseteq> set (map chargeOf (dependencies r)) \<union> set deps"
  using assms
proof (induction deps arbitrary: r st)
  case Nil
  then show ?case by simp
next
  case (Cons dep deps)
  obtain d m where dep: "dep = (d, m)" by (cases dep)
  obtain vis ch where st: "st = (vis, ch)" by (cases st)
  show ?case
  proof (cases "m > currentLevelOf lv d \<and> depKey d m \<notin> vis")
    case False
    then have run: "thirdPass recurse lv deps r (vis, ch) = Some (r', st')"
      using Cons.prems(1) unfolding dep st by (auto simp: Let_def split: if_splits)
    have "distinct (map name (dependencies r) @ map fst deps)"
      using Cons.prems(2) by simp
    from Cons.IH [OF run this] show ?thesis by auto
  next
    case True
    then obtain dr vis1 ch1 where
      run: "thirdPass recurse lv deps (addDependency r d m dr) (vis1, ch1 @ [(d, m)]) = Some (r', st')"
      using Cons.prems(1) unfolding dep st
      by (auto simp: Let_def split: option.splits)
    have "distinct (map name (dependencies (addDependency r d m dr)) @ map fst deps)"
      using Cons.prems(2) unfolding dep
      by (simp add: dependencies_addDependency)
    from Cons.IH [OF run this]
    have "distinct (map name (dependencies r'))"
      and "set (map chargeOf (dependencies r')) \<subseteq>
        set (map chargeOf (dependencies (addDependency r d m dr))) \<union> set deps"
      by simp_all
    moreover have "set (map chargeOf (dependencies (addDependency r d m dr))) =
        insert (d, m) (set (map chargeOf (dependencies r)))"
      by (simp add: dependencies_addDependency chargeOf_def)
    ultimately show ?thesis unfolding dep by auto
  qed
qed

lemma calculate_dependencies:
  assumes sd: "map_of db s = Some sd"
    and run: "calculateResourcesRecursive depth s t c b db lv st = Some (r, st')"
  shows "distinct (map name (dependencies r)) \<and>
    set (map chargeOf (dependencies r)) \<subseteq>
      set (firstPass sd (case c of None \<Rightarrow> currentLevelOf lv s | Some c' \<Rightarrow> c') t)"
proof (cases depth)
  case 0
  then show ?thesis using run by simp
next
  case (Suc n)
  define cur where "cur = (case c of None \<Rightarrow> currentLevelOf lv s | Some c' \<Rightarrow> c')"
  show ?thesis
  proof (cases "t \<le> cur")
    case True
    then have "r = emptyResult" using run sd unfolding Suc
      by (simp add: calculateBody_def cur_def)
    then show ?thesis by (simp add: emptyResult_def)
  next
    case False
    then have tp: "thirdPass (\<lambda>d m c' st'. calculateResourcesRecursive n d m (Some c') b db lv st')
        lv (firstPass sd cur t) (secondPass sd cur t (b / 100) emptyResult) st = Some (r, st')"
      using run sd unfolding Suc by (simp add: calculateBody_def Let_def cur_def)
    have "distinct (map name (dependencies (secondPass sd cur t (b / 100) emptyResult))
        @ map fst (firstPass sd cur t))"
      by (simp add: dependencies_secondPass emptyResult_def firstPass_entries(1))
    from thirdPass_dependencies [OF tp this]
    show ?thesis unfolding cur_def
      by (simp add: dependencies_secondPass emptyResult_def)
  qed
qed

lemma shared_run_B:
  "calculateResourcesRecursive 3 ''B'' 4 (Some 1) 0 (sharedPrerequisite ''Level 4 B'')
     Map.empty ({}, []) =
   Some (\<lparr>individualCosts = [(''stone'', 1110)], dependencyCosts = [],
           totalCosts = [(''stone'', 1110)], dependencies = [],
           individualTimes = 0, dependencyTimes = 0, totalTime = 0\<rparr>,
         ({}, []))"
  by (simp add: numeral_3_eq_3 shared_eval)

text \<open>
  C1 (amended).  A call returns, and its dependencies list names every prerequisite at
  most once; the entry of a prerequisite carries the highest level that the levels in
  range demand of it, lower demands of the same call being superseded and not summed.
  Across the call tree the deduplication is by name and level: no pair of a prerequisite
  and a level is charged twice.  In the example database, where levels 2 and 3 of \<open>A\<close>
  demand levels 2 and 3 of \<open>B\<close> and the nested prerequisite \<open>C\<close> demands level 3 of \<open>B\<close> as
  well, \<open>B\<close> is charged once, for 110 stone.
\<close>

theorem prerequisite_once_per_call:
  assumes "map_of db s = Some sd"
  shows
  "(\<exists>depth r st'. calculateResourcesRecursive depth s t c b db lv st = Some (r, st')) \<and>
   (\<forall>depth r st'. calculateResourcesRecursive depth s t c b db lv st = Some (r, st') \<longrightarrow>
      distinct (map name (dependencies r)) \<and>
      (\<forall>dep \<in> set (dependencies r).
         (name dep, level dep)
           \<in> set (demands sd (case c of None \<Rightarrow> currentLevelOf lv s | Some c' \<Rightarrow> c') t) \<and>
         (\<forall>q \<in> set (demands sd (case c of None \<Rightarrow> currentLevelOf lv s | Some c' \<Rightarrow> c') t).
            fst q = name dep \<longrightarrow> snd q \<le> level dep))) \<and>
   (\<forall>depth r visited' charged.
      calculateResourcesRecursive depth s t c b db lv (fst st, []) = Some (r, (visited', charged)) \<longrightarrow>
        distinct charged) \<and>
   calculateResourcesRecursive 3 ''A'' 3 (Some 1) 0 (sharedPrerequisite ''Level 3 B'')
     Map.empty ({}, []) =
     Some (\<lparr>individualCosts = [], dependencyCosts = [(''stone'', 110)],
             totalCosts = [(''stone'', 110)],
             dependencies =
               [\<lparr>name = ''B'', level = 3, resources = [(''stone'', 110)], time = 0\<rparr>,
                \<lparr>name = ''C'', level = 2, resources = [], time = 0\<rparr>],
             individualTimes = 0, dependencyTimes = 0, totalTime = 0\<rparr>,
           ({''B-3'', ''C-2''}, [(''B'', 3), (''C'', 2)]))"
proof (intro conjI allI impI ballI)
  show "\<exists>depth r st'. calculateResourcesRecursive depth s t c b db lv st = Some (r, st')"
    using calculate_returns_enough [of db s t c b lv st] by blast
next
  fix depth r st'
  assume run: "calculateResourcesRecursive depth s t c b db lv st = Some (r, st')"
  note deps = calculate_dependencies [OF assms run]
  show "distinct (map name (dependencies r))" using deps by simp
  fix dep
  assume "dep \<in> set (dependencies r)"
  then have "chargeOf dep \<in> set (map chargeOf (dependencies r))" by simp
  then have mem: "(name dep, level dep)
      \<in> set (firstPass sd (case c of None \<Rightarrow> currentLevelOf lv s | Some c' \<Rightarrow> c') t)"
    using deps unfolding chargeOf_def by blast
  from firstPass_entries(2) [OF mem]
  show "(name dep, level dep)
      \<in> set (demands sd (case c of None \<Rightarrow> currentLevelOf lv s | Some c' \<Rightarrow> c') t)"
    by simp
  fix q
  assume "q \<in> set (demands sd (case c of None \<Rightarrow> currentLevelOf lv s | Some c' \<Rightarrow> c') t)"
    and "fst q = name dep"
  then show "snd q \<le> level dep"
    using firstPass_entries(2) [OF mem] by simp
next
  fix depth r visited' charged
  assume "calculateResourcesRecursive depth s t c b db lv (fst st, []) = Some (r, (visited', charged))"
  from calculate_charges [OF this] have "distinct (keysOf charged)" by auto
  then show "distinct charged" by (rule distinct_keysOf)
next
  show "calculateResourcesRecursive 3 ''A'' 3 (Some 1) 0 (sharedPrerequisite ''Level 3 B'')
     Map.empty ({}, []) =
     Some (\<lparr>individualCosts = [], dependencyCosts = [(''stone'', 110)],
             totalCosts = [(''stone'', 110)],
             dependencies =
               [\<lparr>name = ''B'', level = 3, resources = [(''stone'', 110)], time = 0\<rparr>,
                \<lparr>name = ''C'', level = 2, resources = [], time = 0\<rparr>],
             individualTimes = 0, dependencyTimes = 0, totalTime = 0\<rparr>,
           ({''B-3'', ''C-2''}, [(''B'', 3), (''C'', 2)]))"
    by (rule shared_run_same)
qed

theorem prerequisite_once_per_call_witness:
  "\<exists>sd. map_of (sharedPrerequisite ''Level 4 B'') ''A'' = Some sd \<and>
     distinct (map name
       [\<lparr>name = ''B'', level = 3, resources = [(''stone'', 110)], time = 0\<rparr>,
        \<lparr>name = ''C'', level = 2, resources = [(''stone'', 1110)], time = 0\<rparr>])"
proof -
  obtain sd where sd: "map_of (sharedPrerequisite ''Level 4 B'') ''A'' = Some sd"
    by (simp add: sharedPrerequisite_def)
  note inst = prerequisite_once_per_call [OF sd, where t = 3 and c = "Some 1" and b = 0
      and lv = Map.empty and st = "({}, [])",
      THEN conjunct2, THEN conjunct1, rule_format, OF shared_run_higher, THEN conjunct1]
  show ?thesis using sd inst by auto
qed

text \<open>
  The claim as the specification states it fails when the nested path demands another
  level than the direct one.  With \<open>C\<close> demanding level 4 of \<open>B\<close>, \<open>B\<close> is charged twice, from
  level 1 to 3 under \<open>A\<close> and from level 1 to 4 under \<open>C\<close>: the total is 1220 stone, while
  upgrading \<open>B\<close> once to level 4, the highest level demanded on any path, costs 1110.
\<close>

theorem shared_prerequisite_counterexample:
  "calculateResourcesRecursive 3 ''A'' 3 (Some 1) 0 (sharedPrerequisite ''Level 4 B'')
     Map.empty ({}, []) =
     Some (\<lparr>individualCosts = [], dependencyCosts = [(''stone'', 1220)],
             totalCosts = [(''stone'', 1220)],
             dependencies =
               [\<lparr>name = ''B'', level = 3, resources = [(''stone'', 110)], time = 0\<rparr>,
                \<lparr>name = ''C'', level = 2, resources = [(''stone'', 1110)], time = 0\<rparr>],
             individualTimes = 0, dependencyTimes = 0, totalTime = 0\<rparr>,
           ({''B-3'', ''B-4'', ''C-2''}, [(''B'', 3), (''B'', 4), (''C'', 2)])) \<and>
   calculateResourcesRecursive 3 ''B'' 4 (Some 1) 0 (sharedPrerequisite ''Level 4 B'')
     Map.empty ({}, []) =
     Some (\<lparr>individualCosts = [(''stone'', 1110)], dependencyCosts = [],
             totalCosts = [(''stone'', 1110)], dependencies = [],
             individualTimes = 0, dependencyTimes = 0, totalTime = 0\<rparr>,
           ({}, [])) \<and>
   \<not> distinct (map fst [(''B'', 3 :: int), (''B'', 4), (''C'', 2)]) \<and>
   (1220 :: rat) \<noteq> 1110"
  using shared_run_higher shared_run_B by simp

end
